theory Spec2Isabelle
  imports Complex_Main
begin

section \<open>Data model\<close>

text \<open>
  The drivers compute with Python floats; they are idealised here as real numbers, so
  rounding, overflow and NaN are outside the model. A position is the pair returned by
  the simulator's \<open>getPosition\<close>.
\<close>

type_synonym position = "real \<times> real"

text \<open>Class \<open>RSU\<close>: identity and fixed position (fields \<open>id\<close>, \<open>x\<close>, \<open>y\<close>).\<close>

record RSU =
  rsu_id :: int
  rsu_x :: real
  rsu_y :: real

text \<open>
  One vehicle of the simulator's current tick: what \<open>traci.vehicle.getPosition\<close>,
  \<open>getSpeed\<close>, \<open>getAngle\<close> (degrees), \<open>getLength\<close> and \<open>getWidth\<close> answer for
  its identity. A snapshot is the list of the active vehicles in the order of
  \<open>traci.vehicle.getIDList()\<close>; identities are unique within a snapshot.
\<close>

record vehicle =
  veh_id :: string
  veh_pos :: position
  veh_speed :: real
  veh_angle :: real
  veh_length :: real
  veh_width :: real

type_synonym traci = "vehicle list"

section \<open>Geometry\<close>

text \<open>\<open>math.dist\<close> on two points of the plane.\<close>

definition euclid :: "position \<Rightarrow> position \<Rightarrow> real" where
  "euclid p q = sqrt ((fst p - fst q)\<^sup>2 + (snd p - snd q)\<^sup>2)"

text \<open>
  The expression \<open>math.sqrt((pos[0] - rsu.x) ** 2 + (pos[1] - rsu.y) ** 2)\<close> that every
  driver repeats.
\<close>

definition rsu_distance :: "position \<Rightarrow> RSU \<Rightarrow> real" where
  "rsu_distance pos rsu = sqrt ((fst pos - rsu_x rsu)\<^sup>2 + (snd pos - rsu_y rsu)\<^sup>2)"

definition radians :: "real \<Rightarrow> real" where
  "radians a = a * pi / 180"

section \<open>Link quality\<close>

text \<open>
  The arithmetic tail shared by \<open>calculate_signal_strength\<close> of the baseline and smart
  drivers, with the constant 5 of the source taken as the parameter \<open>block_penalty\<close>.
\<close>

definition strength :: "real \<Rightarrow> real \<Rightarrow> bool \<Rightarrow> real" where
  "strength block_penalty distance is_blocked =
     (if distance = 0 then 1
      else if is_blocked then max 0 (1 / (1 + distance * block_penalty))
      else max 0 (1 / (1 + distance)))"

text \<open>
  \<open>check_for_obstacles\<close> of \<open>run_simulation_smart.py\<close>: every active vehicle is an
  obstacle candidate, tested against the rectangle spanned by the position and the RSU.
\<close>

definition check_for_obstacles_smart :: "traci \<Rightarrow> position \<Rightarrow> RSU \<Rightarrow> bool" where
  "check_for_obstacles_smart sim vehicle_pos rsu =
     list_ex (\<lambda>ob.
        min (fst vehicle_pos) (rsu_x rsu) \<le> fst (veh_pos ob) \<and>
        fst (veh_pos ob) \<le> max (fst vehicle_pos) (rsu_x rsu) \<and>
        min (snd vehicle_pos) (rsu_y rsu) \<le> snd (veh_pos ob) \<and>
        snd (veh_pos ob) \<le> max (snd vehicle_pos) (rsu_y rsu)) sim"

text \<open>\<open>calculate_signal_strength\<close> of \<open>run_simulation_smart.py\<close>.\<close>

definition calculate_signal_strength_smart :: "traci \<Rightarrow> position \<Rightarrow> RSU \<Rightarrow> real" where
  "calculate_signal_strength_smart sim predicted_pos rsu =
     strength 5 (rsu_distance predicted_pos rsu)
       (check_for_obstacles_smart sim predicted_pos rsu)"

text \<open>
  \<open>is_blocking_los\<close> and \<open>calculate_signal_strength\<close> of \<open>run_simulation_b-aware.py\<close>:
  the obstacles are the positions of the other vehicles, and the loop multiplies the
  distance by 1.5 at every obstacle that is nearer to the vehicle than the RSU is.
\<close>

definition is_blocking_los_b_aware :: "position \<Rightarrow> RSU \<Rightarrow> position \<Rightarrow> bool" where
  "is_blocking_los_b_aware vehicle_pos rsu obstacle_pos =
     (euclid vehicle_pos obstacle_pos < euclid vehicle_pos (rsu_x rsu, rsu_y rsu))"

fun penalise :: "position \<Rightarrow> RSU \<Rightarrow> position list \<Rightarrow> real \<Rightarrow> real" where
  "penalise vehicle_pos rsu [] distance = distance"
| "penalise vehicle_pos rsu (obstacle # obstacles) distance =
     penalise vehicle_pos rsu obstacles
       (if is_blocking_los_b_aware vehicle_pos rsu obstacle then distance * 1.5 else distance)"

definition calculate_signal_strength_b_aware :: "position \<Rightarrow> RSU \<Rightarrow> position list \<Rightarrow> real" where
  "calculate_signal_strength_b_aware vehicle_pos rsu obstacles =
     (let distance = penalise vehicle_pos rsu obstacles (rsu_distance vehicle_pos rsu)
      in if distance > 0 then max 0 (1 / (1 + distance)) else 1)"

text \<open>
  \<open>check_for_obstacles\<close> and \<open>calculate_signal_strength\<close> of \<open>run_simulation_base.py\<close>:
  the same rectangle test, with the subject vehicle skipped.
\<close>

definition check_for_obstacles_base :: "traci \<Rightarrow> position \<Rightarrow> RSU \<Rightarrow> string \<Rightarrow> bool" where
  "check_for_obstacles_base sim vehicle_pos rsu vehicle_id =
     list_ex (\<lambda>ob.
        veh_id ob \<noteq> vehicle_id \<and>
        min (fst vehicle_pos) (rsu_x rsu) \<le> fst (veh_pos ob) \<and>
        fst (veh_pos ob) \<le> max (fst vehicle_pos) (rsu_x rsu) \<and>
        min (snd vehicle_pos) (rsu_y rsu) \<le> snd (veh_pos ob) \<and>
        snd (veh_pos ob) \<le> max (snd vehicle_pos) (rsu_y rsu)) sim"

definition calculate_signal_strength_base :: "traci \<Rightarrow> position \<Rightarrow> RSU \<Rightarrow> string \<Rightarrow> real" where
  "calculate_signal_strength_base sim vehicle_pos rsu vehicle_id =
     strength 5 (rsu_distance vehicle_pos rsu)
       (check_for_obstacles_base sim vehicle_pos rsu vehicle_id)"

section \<open>Trajectory prediction\<close>

text \<open>
  \<open>predict_future_position\<close> of \<open>run_simulation_smart.py\<close>. It has no check of its
  arguments and no failure branch. The other drivers read the three arguments from the
  simulator by the vehicle's identity and compute the same expression;
  \<open>predict_future_position_of\<close> is that variant.
\<close>

definition predict_future_position :: "position \<Rightarrow> real \<Rightarrow> real \<Rightarrow> real \<Rightarrow> position" where
  "predict_future_position vehicle_pos vehicle_speed vehicle_angle time_ahead =
     (let delta_x = vehicle_speed * time_ahead * cos (radians vehicle_angle);
          delta_y = vehicle_speed * time_ahead * sin (radians vehicle_angle)
      in (fst vehicle_pos + delta_x, snd vehicle_pos + delta_y))"

definition predict_future_position_of :: "vehicle \<Rightarrow> real \<Rightarrow> position" where
  "predict_future_position_of veh time_ahead =
     predict_future_position (veh_pos veh) (veh_speed veh) (veh_angle veh) time_ahead"

section \<open>Connection duration\<close>

text \<open>
  The exceptions that the modelled statements can raise. Python's
  \<open>range(start, stop, step)\<close> on integers: a step of 0 raises \<open>ValueError\<close>, a
  positive step counts up while below \<open>stop\<close>, a negative one counts down while above.
\<close>

datatype py_error =
  ValueError | IndexError | KeyError | UnboundLocalError | NodeNotFound | NetworkXNoPath

function range_up :: "int \<Rightarrow> int \<Rightarrow> int \<Rightarrow> int list" where
  "range_up i stop step =
     (if 0 < step \<and> i < stop then i # range_up (i + step) stop step else [])"
  by pat_completeness auto
termination
  by (relation "measure (\<lambda>(i, stop, step). nat (stop - i))") auto

function range_down :: "int \<Rightarrow> int \<Rightarrow> int \<Rightarrow> int list" where
  "range_down i stop step =
     (if step < 0 \<and> stop < i then i # range_down (i + step) stop step else [])"
  by pat_completeness auto
termination
  by (relation "measure (\<lambda>(i, stop, step). nat (i - stop))") auto

definition py_range :: "int \<Rightarrow> int \<Rightarrow> int \<Rightarrow> py_error + int list" where
  "py_range start stop step =
     (if step = 0 then Inl ValueError
      else if 0 < step then Inr (range_up start stop step)
      else Inr (range_down start stop step))"

text \<open>
  The loop shared by every \<open>estimate_connection_duration\<close> that rolls the trajectory
  forward: \<open>duration\<close> grows by \<open>step_size\<close> at each sampled tick until the first one at
  which the \<open>break\<close> condition \<open>lost\<close> holds.
\<close>

fun rollout :: "(int \<Rightarrow> bool) \<Rightarrow> int \<Rightarrow> int list \<Rightarrow> int \<Rightarrow> int" where
  "rollout lost step_size [] duration = duration"
| "rollout lost step_size (t # ts) duration =
     (if lost t then duration else rollout lost step_size ts (duration + step_size))"

definition estimate_loop :: "(int \<Rightarrow> bool) \<Rightarrow> int \<Rightarrow> int \<Rightarrow> py_error + int" where
  "estimate_loop lost max_duration step_size =
     (case py_range 1 (max_duration + 1) step_size of
        Inl e \<Rightarrow> Inl e
      | Inr ts \<Rightarrow> Inr (rollout lost step_size ts 0))"

text \<open>The test \<open>distance > 400\<close> at the position predicted for tick \<open>t\<close>.\<close>

definition out_of_range :: "vehicle \<Rightarrow> RSU \<Rightarrow> int \<Rightarrow> bool" where
  "out_of_range veh rsu t =
     (400 < rsu_distance (predict_future_position_of veh (of_int t)) rsu)"

text \<open>\<open>estimate_connection_duration\<close> of \<open>run_simulation_smart.py\<close>: the range test only.\<close>

definition estimate_connection_duration_smart :: "vehicle \<Rightarrow> RSU \<Rightarrow> int \<Rightarrow> int \<Rightarrow> py_error + int" where
  "estimate_connection_duration_smart veh rsu max_duration step_size =
     estimate_loop (out_of_range veh rsu) max_duration step_size"

text \<open>
  \<open>is_blocking_los\<close> and \<open>estimate_connection_duration\<close> of
  \<open>run_chandleraz_simulation_smart.py\<close>: every active vehicle, moved to its own predicted
  position for the same tick, is tested against the rectangle spanned by the subject's
  predicted position and the RSU.
\<close>

definition is_blocking_los_chandler :: "traci \<Rightarrow> position \<Rightarrow> RSU \<Rightarrow> real \<Rightarrow> bool" where
  "is_blocking_los_chandler sim future_vehicle_pos rsu time_ahead =
     list_ex (\<lambda>ob.
        let obstacle_pos = predict_future_position_of ob time_ahead
        in min (fst future_vehicle_pos) (rsu_x rsu) \<le> fst obstacle_pos \<and>
           fst obstacle_pos \<le> max (fst future_vehicle_pos) (rsu_x rsu) \<and>
           min (snd future_vehicle_pos) (rsu_y rsu) \<le> snd obstacle_pos \<and>
           snd obstacle_pos \<le> max (snd future_vehicle_pos) (rsu_y rsu)) sim"

definition link_lost_chandler :: "traci \<Rightarrow> vehicle \<Rightarrow> RSU \<Rightarrow> int \<Rightarrow> bool" where
  "link_lost_chandler sim veh rsu t =
     (out_of_range veh rsu t \<or>
      is_blocking_los_chandler sim (predict_future_position_of veh (of_int t)) rsu (of_int t))"

definition estimate_connection_duration_chandler ::
  "traci \<Rightarrow> vehicle \<Rightarrow> RSU \<Rightarrow> int \<Rightarrow> int \<Rightarrow> py_error + int" where
  "estimate_connection_duration_chandler sim veh rsu max_duration step_size =
     estimate_loop (link_lost_chandler sim veh rsu) max_duration step_size"

section \<open>Selection strategies\<close>

text \<open>
  The per-vehicle body of \<open>run_simulation\<close> in \<open>run_simulation_base.py\<close>: the loop over
  the roster keeps \<open>(best_rsu, best_signal)\<close>, starting from \<open>(None, 0)\<close>, and a row
  \<open>[step, vehicle_id, best_rsu.id, best_signal]\<close> is written when an RSU was chosen.
  The append to \<open>best_rsu.connected_vehicles\<close> changes no decision and is left out.
\<close>

fun greedy_loop :: "traci \<Rightarrow> position \<Rightarrow> string \<Rightarrow> RSU list \<Rightarrow> RSU option \<times> real \<Rightarrow> RSU option \<times> real" where
  "greedy_loop sim vehicle_pos vehicle_id [] best = best"
| "greedy_loop sim vehicle_pos vehicle_id (rsu # rsus) (best_rsu, best_signal) =
     (let signal_strength = calculate_signal_strength_base sim vehicle_pos rsu vehicle_id
      in if signal_strength > best_signal
         then greedy_loop sim vehicle_pos vehicle_id rsus (Some rsu, signal_strength)
         else greedy_loop sim vehicle_pos vehicle_id rsus (best_rsu, best_signal))"

type_synonym base_row = "nat \<times> string \<times> int \<times> real"

definition greedy_decision :: "traci \<Rightarrow> nat \<Rightarrow> vehicle \<Rightarrow> RSU list \<Rightarrow> base_row option" where
  "greedy_decision sim step veh rsus =
     (case greedy_loop sim (veh_pos veh) (veh_id veh) rsus (None, 0) of
        (None, best_signal) \<Rightarrow> None
      | (Some best_rsu, best_signal) \<Rightarrow> Some (step, veh_id veh, rsu_id best_rsu, best_signal))"

text \<open>
  The per-vehicle body of \<open>run_smart_simulation_with_trajectory\<close> in
  \<open>run_simulation_smart.py\<close>. The loop variables \<open>signal_strength\<close> and
  \<open>connection_duration\<close> are unbound before the first iteration and keep the values of
  the last iteration after the loop, where \<open>writerow\<close> reads them.
\<close>

record smart_vars =
  sv_best_rsu :: "RSU option"
  sv_best_score :: real
  sv_signal_strength :: "real option"
  sv_connection_duration :: "int option"

record log_row =
  row_step :: nat
  row_vehicle :: string
  row_rsu :: int
  row_signal :: real
  row_duration :: int
  row_score :: real

fun smart_loop :: "traci \<Rightarrow> vehicle \<Rightarrow> position \<Rightarrow> RSU list \<Rightarrow> smart_vars \<Rightarrow> py_error + smart_vars" where
  "smart_loop sim veh predicted_pos [] vars = Inr vars"
| "smart_loop sim veh predicted_pos (rsu # rsus) vars =
     (let signal_strength = calculate_signal_strength_smart sim predicted_pos rsu
      in case estimate_connection_duration_smart veh rsu 10 1 of
           Inl e \<Rightarrow> Inl e
         | Inr connection_duration \<Rightarrow>
             (let score = signal_strength * of_int connection_duration;
                  vars' = vars\<lparr>sv_signal_strength := Some signal_strength,
                               sv_connection_duration := Some connection_duration\<rparr>
              in if score > sv_best_score vars
                 then smart_loop sim veh predicted_pos rsus
                        (vars'\<lparr>sv_best_score := score, sv_best_rsu := Some rsu\<rparr>)
                 else smart_loop sim veh predicted_pos rsus vars'))"

definition smart_decision :: "traci \<Rightarrow> nat \<Rightarrow> vehicle \<Rightarrow> RSU list \<Rightarrow> py_error + log_row option" where
  "smart_decision sim step veh rsus =
     (let predicted_pos =
            predict_future_position (veh_pos veh) (veh_speed veh) (veh_angle veh) 2
      in case smart_loop sim veh predicted_pos rsus
                \<lparr>sv_best_rsu = None, sv_best_score = 0,
                 sv_signal_strength = None, sv_connection_duration = None\<rparr> of
           Inl e \<Rightarrow> Inl e
         | Inr vars \<Rightarrow>
             (case (sv_best_rsu vars, sv_signal_strength vars, sv_connection_duration vars) of
                (Some best_rsu, Some signal_strength, Some connection_duration) \<Rightarrow>
                  Inr (Some \<lparr>row_step = step, row_vehicle = veh_id veh,
                              row_rsu = rsu_id best_rsu, row_signal = signal_strength,
                              row_duration = connection_duration,
                              row_score = sv_best_score vars\<rparr>)
              | _ \<Rightarrow> Inr None))"

section \<open>The time-expanded graph\<close>

text \<open>
  A node of \<open>construct_dag\<close> in \<open>run_chandleraz_simulation_b-aware.py\<close> is a pair of a
  label and a tick: \<open>("start", 0)\<close>, \<open>(rsu.id, t)\<close> or \<open>("end", horizon + 1)\<close>.
\<close>

datatype label = Start | Rsu int | End

type_synonym node = "label \<times> nat"

text \<open>
  The part of \<open>nx.DiGraph\<close> that \<open>construct_dag\<close> uses: the nodes in the order of their
  insertion, and the \<open>weight\<close> attribute of every edge. Adding a node that is present
  changes nothing; adding an edge that is present overwrites its weight, and adds the
  end points that are missing.
\<close>

record digraph =
  g_nodes :: "node list"
  g_weight :: "node \<times> node \<Rightarrow> real option"

definition empty_graph :: digraph where
  "empty_graph = \<lparr>g_nodes = [], g_weight = (\<lambda>e. None)\<rparr>"

definition add_node :: "digraph \<Rightarrow> node \<Rightarrow> digraph" where
  "add_node G n = (if n \<in> set (g_nodes G) then G else G\<lparr>g_nodes := g_nodes G @ [n]\<rparr>)"

definition add_edge :: "digraph \<Rightarrow> node \<Rightarrow> node \<Rightarrow> real \<Rightarrow> digraph" where
  "add_edge G u v w =
     (let G' = add_node (add_node G u) v
      in G'\<lparr>g_weight := (g_weight G')((u, v) \<mapsto> w)\<rparr>)"

text \<open>
  The loop \<open>for last_node in last_nodes: G.add_edge(last_node, node, weight=edge_weight)\<close>.
  The sets \<open>last_nodes\<close> and \<open>current_nodes\<close> are kept as lists without repetition; the
  order in which Python walks a set only orders the insertion of edges, which the
  weight map does not record. The path search, which depends on that order, takes it as
  a parameter.
\<close>

fun connect :: "node list \<Rightarrow> node \<Rightarrow> real \<Rightarrow> digraph \<Rightarrow> digraph" where
  "connect [] node edge_weight G = G"
| "connect (last_node # rest) node edge_weight G =
     connect rest node edge_weight (add_edge G last_node node edge_weight)"

text \<open>The loop \<open>for rsu in rsus\<close> of one tick.\<close>

fun rsu_loop :: "position \<Rightarrow> nat \<Rightarrow> node list \<Rightarrow> RSU list \<Rightarrow> digraph \<times> node list \<Rightarrow> digraph \<times> node list" where
  "rsu_loop future_pos t last_nodes [] st = st"
| "rsu_loop future_pos t last_nodes (rsu # rsus) (G, current_nodes) =
     (let distance = rsu_distance future_pos rsu
      in if distance \<le> 400
         then (let node = (Rsu (rsu_id rsu), t);
                   G1 = add_node G node;
                   potential_datarate = 1 / (1 + distance);
                   edge_weight = - potential_datarate;
                   G2 = connect last_nodes node edge_weight G1
               in rsu_loop future_pos t last_nodes rsus (G2, List.insert node current_nodes))
         else rsu_loop future_pos t last_nodes rsus (G, current_nodes))"

text \<open>
  The body of \<open>for t in range(1, horizon + 1)\<close>, ending with
  \<open>last_nodes = current_nodes or last_nodes\<close>: an empty set is false in Python.
\<close>

definition dag_tick :: "vehicle \<Rightarrow> RSU list \<Rightarrow> int \<Rightarrow> nat \<Rightarrow> digraph \<times> node list \<Rightarrow> digraph \<times> node list" where
  "dag_tick veh rsus timestep t st =
     (case st of (G, last_nodes) \<Rightarrow>
        (let future_pos = predict_future_position_of veh (of_int (int t * timestep))
         in case rsu_loop future_pos t last_nodes rsus (G, []) of
              (G', current_nodes) \<Rightarrow>
                (G', if current_nodes = [] then last_nodes else current_nodes)))"

text \<open>
  The graph and the live set after the first \<open>n\<close> ticks of the loop, from the graph that
  holds the start node alone and \<open>last_nodes = {start_node}\<close>.
\<close>

primrec dag_loop :: "vehicle \<Rightarrow> RSU list \<Rightarrow> int \<Rightarrow> nat \<Rightarrow> digraph \<times> node list" where
  "dag_loop veh rsus timestep 0 = (add_node empty_graph (Start, 0), [(Start, 0)])"
| "dag_loop veh rsus timestep (Suc n) =
     dag_tick veh rsus timestep (Suc n) (dag_loop veh rsus timestep n)"

text \<open>The graph handed to the path search: the end node and its zero-weight edges added.\<close>

definition build_graph :: "vehicle \<Rightarrow> RSU list \<Rightarrow> nat \<Rightarrow> int \<Rightarrow> digraph" where
  "build_graph veh rsus horizon timestep =
     (case dag_loop veh rsus timestep horizon of
        (G, last_nodes) \<Rightarrow>
          connect last_nodes (End, horizon + 1) 0 (add_node G (End, horizon + 1)))"

section \<open>The path search\<close>

text \<open>
  \<open>nx.shortest_path(G, source=start_node, target=end_node, weight="weight")\<close> is a call
  into the networkx library, whose code is not among the sources. Given two end points
  and a weight, and no \<open>method\<close>, \<open>shortest_path\<close> hands the call to
  \<open>bidirectional_dijkstra\<close> and returns the path of the pair that it answers. The
  definitions of this section follow the statements of that routine. Releases of the
  library differ in whether the routine keeps the partial paths or rebuilds them from
  predecessor links at the moment the two searches meet; the path is the same, and the
  partial paths are kept here.

  The routine walks \<open>G._succ[v]\<close> when it searches forward and \<open>G._pred[v]\<close> when it
  searches backward; both are dicts in the order in which the edges were inserted.
  \<open>construct_dag\<close> adds a node just before the edges into it, so the successors of a node
  were inserted in the order of the node list. The predecessors of a node were inserted
  in the order in which the loop \<open>for last_node in last_nodes\<close> walked the set, which is
  the order of the slots that the members take in the hash table of the set. Python
  does not fix it, so it is the parameter \<open>slot\<close>: a member with a lower slot is walked
  first.
\<close>

definition successors :: "digraph \<Rightarrow> node \<Rightarrow> node list" where
  "successors G v = [w \<leftarrow> g_nodes G. g_weight G (v, w) \<noteq> None]"

definition predecessors :: "(node \<Rightarrow> nat) \<Rightarrow> digraph \<Rightarrow> node \<Rightarrow> node list" where
  "predecessors slot G v = sort_key slot [u \<leftarrow> g_nodes G. g_weight G (u, v) \<noteq> None]"

text \<open>\<open>neighs = [G._succ, G._pred]\<close>, indexed by the direction.\<close>

definition neighs :: "(node \<Rightarrow> nat) \<Rightarrow> digraph \<Rightarrow> nat \<Rightarrow> node \<Rightarrow> node list" where
  "neighs slot G dir v = (if dir = 0 then successors G v else predecessors slot G v)"

text \<open>
  The weight function \<open>lambda u, v, data: data.get("weight", 1)\<close>; every edge of
  \<open>construct_dag\<close> carries a weight.
\<close>

definition weight :: "digraph \<Rightarrow> node \<Rightarrow> node \<Rightarrow> real" where
  "weight G u v = (case g_weight G (u, v) of Some x \<Rightarrow> x | None \<Rightarrow> 1)"

text \<open>
  The two heaps hold tuples \<open>(distance, next(c), node)\<close>. The counter \<open>c\<close> is fresh at
  every push, so two tuples never agree on their first two components, \<open>heappop\<close>
  takes the tuple that is least on them, and the place of a tuple inside the heap is not
  observable. A heap is kept as the list of its tuples.
\<close>

type_synonym entry = "real \<times> nat \<times> node"

definition entry_less :: "entry \<Rightarrow> entry \<Rightarrow> bool" where
  "entry_less x y = (fst x < fst y \<or> (fst x = fst y \<and> fst (snd x) < fst (snd y)))"

fun least_entry :: "entry \<Rightarrow> entry list \<Rightarrow> entry" where
  "least_entry e [] = e"
| "least_entry e (x # xs) = least_entry (if entry_less x e then x else e) xs"

definition heappush :: "entry list \<Rightarrow> entry \<Rightarrow> entry list" where
  "heappush heap e = e # heap"

fun heappop :: "entry list \<Rightarrow> py_error + entry \<times> entry list" where
  "heappop [] = Inl IndexError"
| "heappop (e # es) = (let m = least_entry e es in Inr (m, remove1 m (e # es)))"

text \<open>
  The local variables of \<open>bidirectional_dijkstra\<close>. The two-element lists \<open>dists\<close>,
  \<open>paths\<close>, \<open>fringe\<close> and \<open>seen\<close> are functions of the direction, 0 forward and 1 backward;
  \<open>finaldist\<close> is unbound until the first meeting of the two searches.
\<close>

record search =
  dists :: "nat \<Rightarrow> node \<rightharpoonup> real"
  paths :: "nat \<Rightarrow> node \<rightharpoonup> node list"
  fringe :: "nat \<Rightarrow> entry list"
  seen :: "nat \<Rightarrow> node \<rightharpoonup> real"
  counter :: nat
  finaldist :: "real option"
  finalpath :: "node list"

text \<open>
  The statement \<open>if w in seen[0] and w in seen[1]\<close> and its body: a node that both
  searches have seen gives a path from the source to the target, which replaces
  \<open>finalpath\<close> when no path was kept yet or when it is strictly lighter.
\<close>

definition meet :: "node \<Rightarrow> search \<Rightarrow> py_error + search" where
  "meet w s =
     (case (seen s 0 w, seen s 1 w) of
        (Some seen0, Some seen1) \<Rightarrow>
          (let totaldist = seen0 + seen1;
               found = (case (paths s 0 w, paths s 1 w) of
                          (Some path0, Some path1) \<Rightarrow>
                            (let revpath = rev path1
                             in Inr (s\<lparr>finaldist := Some totaldist,
                                       finalpath := path0 @ tl revpath\<rparr>))
                        | _ \<Rightarrow> Inl KeyError)
           in if finalpath s = [] then found
              else case finaldist s of
                     None \<Rightarrow> Inl UnboundLocalError
                   | Some fd \<Rightarrow> if fd > totaldist then found else Inr s)
      | _ \<Rightarrow> Inr s)"

text \<open>
  The branch marked \<open># relaxing\<close>: the new distance of \<open>w\<close> is recorded and pushed with a
  fresh counter, and the path to \<open>w\<close> is the path to \<open>v\<close> extended by \<open>w\<close>.
\<close>

definition relaxing :: "nat \<Rightarrow> node \<Rightarrow> node \<Rightarrow> real \<Rightarrow> search \<Rightarrow> py_error + search" where
  "relaxing dir v w vwLength s =
     (case paths s dir v of
        None \<Rightarrow> Inl KeyError
      | Some path_v \<Rightarrow>
          meet w (s\<lparr>seen := (seen s)(dir := (seen s dir)(w \<mapsto> vwLength)),
                    fringe := (fringe s)(dir := heappush (fringe s dir) (vwLength, counter s, w)),
                    counter := counter s + 1,
                    paths := (paths s)(dir := (paths s dir)(w \<mapsto> path_v @ [w]))\<rparr>))"

text \<open>
  The loop \<open>for w, d in neighs[dir][v].items()\<close>, entered with \<open>dists[dir][v]\<close> just set
  to the popped distance \<open>dist_v\<close>. A neighbour whose distance is final and which the new
  path would improve makes the routine raise
  \<open>ValueError("Contradictory paths found: negative weights?")\<close>.
\<close>

fun relax_loop :: "digraph \<Rightarrow> nat \<Rightarrow> node \<Rightarrow> real \<Rightarrow> node list \<Rightarrow> search \<Rightarrow> py_error + search" where
  "relax_loop G dir v dist_v [] s = Inr s"
| "relax_loop G dir v dist_v (w # ws) s =
     (let cost = (if dir = 0 then weight G v w else weight G w v);
          vwLength = dist_v + cost
      in case dists s dir w of
           Some dist_w \<Rightarrow>
             if vwLength < dist_w then Inl ValueError else relax_loop G dir v dist_v ws s
         | None \<Rightarrow>
             (if (case seen s dir w of None \<Rightarrow> True | Some seen_w \<Rightarrow> vwLength < seen_w)
              then (case relaxing dir v w vwLength s of
                      Inl err \<Rightarrow> Inl err
                    | Inr s' \<Rightarrow> relax_loop G dir v dist_v ws s')
              else relax_loop G dir v dist_v ws s))"

text \<open>
  What the loop \<open>while fringe[0] and fringe[1]\<close> uses up: a popped tuple, and for every
  node of the graph that a direction has not settled, the tuples that settling it can
  push.
\<close>

definition entry_size :: "digraph \<Rightarrow> entry \<Rightarrow> nat" where
  "entry_size G e = (if snd (snd e) \<in> set (g_nodes G) then 1 else length (g_nodes G) + 2)"

definition fringe_size :: "digraph \<Rightarrow> entry list \<Rightarrow> nat" where
  "fringe_size G heap = sum_list (map (entry_size G) heap)"

definition unsettled :: "digraph \<Rightarrow> (node \<rightharpoonup> real) \<Rightarrow> nat" where
  "unsettled G d = length [u \<leftarrow> g_nodes G. d u = None]"

definition search_size :: "digraph \<Rightarrow> search \<Rightarrow> nat" where
  "search_size G s =
     (length (g_nodes G) + 1) * (unsettled G (dists s 0) + unsettled G (dists s 1)) +
     fringe_size G (fringe s 0) + fringe_size G (fringe s 1)"

text \<open>
  The loop \<open>while fringe[0] and fringe[1]\<close>. The argument \<open>dir0\<close> is the direction on
  entry; the body starts with \<open>dir = 1 - dir\<close>. The loop ends by the
  \<open>return\<close> at a node that both directions have settled, by an exception, or with an
  empty heap, after which the routine raises \<open>NetworkXNoPath\<close>.
\<close>

function bidirectional_loop ::
  "(node \<Rightarrow> nat) \<Rightarrow> digraph \<Rightarrow> nat \<Rightarrow> search \<Rightarrow> py_error + real \<times> node list" where
  "bidirectional_loop slot G dir0 s =
     (if fringe s 0 = [] \<or> fringe s 1 = [] then Inl NetworkXNoPath
      else let dir = 1 - dir0
        in case heappop (fringe s dir) of
          Inl err \<Rightarrow> Inl err
        | Inr ((dist_v, k, v), rest) \<Rightarrow>
            (let s1 = s\<lparr>fringe := (fringe s)(dir := rest)\<rparr>
             in if dists s1 dir v \<noteq> None then bidirectional_loop slot G dir s1
                else let s2 = s1\<lparr>dists := (dists s1)(dir := (dists s1 dir)(v \<mapsto> dist_v))\<rparr>
                  in if dists s2 (1 - dir) v \<noteq> None
                     then (case finaldist s2 of
                             None \<Rightarrow> Inl UnboundLocalError
                           | Some fd \<Rightarrow> Inr (fd, finalpath s2))
                     else case relax_loop G dir v dist_v (neighs slot G dir v) s2 of
                            Inl err \<Rightarrow> Inl err
                          | Inr s3 \<Rightarrow> bidirectional_loop slot G dir s3))"
  by pat_completeness auto
termination
proof -
  have pop: "fringe_size G heap = entry_size G e + fringe_size G rest"
    if "heappop heap = Inr (e, rest)" for G heap e rest
  proof (cases heap)
    case Nil
    with that show ?thesis by simp
  next
    case (Cons x xs)
    have mem: "least_entry y ys \<in> set (y # ys)" for y ys
      by (induction ys arbitrary: y) auto
    from that Cons have e: "e = least_entry x xs" and r: "rest = remove1 e heap"
      by (auto simp: Let_def)
    from mem [of x xs] e Cons have "e \<in> set heap" by simp
    then show ?thesis
      unfolding fringe_size_def r by (rule sum_list_map_remove1)
  qed
  have met: "dists s' = dists s \<and> fringe s' = fringe s"
    if "meet w s = Inr s'" for w s s'
    using that by (auto simp: meet_def Let_def split: option.splits if_splits)
  have rel: "dists s' = dists s \<and>
             fringe s' = (fringe s)(dir := (vw, counter s, w) # fringe s dir)"
    if "relaxing dir v w vw s = Inr s'" for dir v w vw s s'
    using that met by (fastforce simp: relaxing_def heappush_def split: option.splits)
  have rlx: "dists s' = dists s \<and> (\<forall>i. i \<noteq> dir \<longrightarrow> fringe s' i = fringe s i) \<and>
             fringe_size G (fringe s' dir) \<le> fringe_size G (fringe s dir) + length ws"
    if "relax_loop G dir v d ws s = Inr s'" and "set ws \<subseteq> set (g_nodes G)"
    for G dir v d ws s s'
    using that
  proof (induction ws arbitrary: s)
    case Nil
    then show ?case by simp
  next
    case (Cons w ws)
    let ?vw = "d + (if dir = 0 then weight G v w else weight G w v)"
    from Cons.prems(2) have win: "w \<in> set (g_nodes G)" and sub: "set ws \<subseteq> set (g_nodes G)"
      by simp_all
    consider (skip) "relax_loop G dir v d ws s = Inr s'"
      | (push) s1 where "relaxing dir v w ?vw s = Inr s1" "relax_loop G dir v d ws s1 = Inr s'"
      using Cons.prems(1) by (auto simp: Let_def split: option.splits if_splits sum.splits)
    then show ?case
    proof cases
      case skip
      from Cons.IH [OF skip sub] show ?thesis by simp
    next
      case push
      from rel [OF push(1)] have d1: "dists s1 = dists s"
        and f1: "fringe s1 = (fringe s)(dir := (?vw, counter s, w) # fringe s dir)" by simp_all
      from Cons.IH [OF push(2) sub] have ih: "dists s' = dists s1"
        "\<forall>i. i \<noteq> dir \<longrightarrow> fringe s' i = fringe s1 i"
        "fringe_size G (fringe s' dir) \<le> fringe_size G (fringe s1 dir) + length ws" by simp_all
      have "fringe_size G (fringe s1 dir) = 1 + fringe_size G (fringe s dir)"
        unfolding f1 using win by (simp add: fringe_size_def entry_size_def)
      with ih d1 f1 show ?thesis by simp
    qed
  qed
  have nb: "set (neighs slot G dir v) \<subseteq> set (g_nodes G) \<and>
            length (neighs slot G dir v) \<le> length (g_nodes G)" for slot G dir v
    by (auto simp: neighs_def successors_def predecessors_def)
  have settle: "unsettled G (d(v \<mapsto> x)) \<le> unsettled G d \<and>
                (v \<in> set (g_nodes G) \<longrightarrow> d v = None \<longrightarrow> unsettled G (d(v \<mapsto> x)) < unsettled G d)"
    for G d v x
  proof -
    have eq: "[u \<leftarrow> g_nodes G. (d(v \<mapsto> x)) u = None] =
              filter (\<lambda>u. u \<noteq> v) [u \<leftarrow> g_nodes G. d u = None]"
      by (induction "g_nodes G") (auto intro: filter_cong)
    let ?L = "[u \<leftarrow> g_nodes G. d u = None]"
    have le: "length (filter (\<lambda>u. u \<noteq> v) ?L) \<le> length ?L" by (rule length_filter_le)
    have lt: "length (filter (\<lambda>u. u \<noteq> v) ?L) < length ?L"
      if "v \<in> set (g_nodes G)" "d v = None"
    proof (rule length_filter_less [of v])
      show "v \<in> set ?L" using that by simp
      show "\<not> v \<noteq> v" by simp
    qed
    show ?thesis
      unfolding unsettled_def eq using le lt by blast
  qed
  show ?thesis
  proof (relation "measure (\<lambda>(slot, G, dir, s). search_size G s)", goal_cases)
    case 1
    show ?case by simp
  next
    case (2 slot G dir0 s D b e rest dist_v kv k v s1)
    from 2(2) have D: "D = 0 \<or> D = 1" by auto
    from 2(3,4) have "heappop (fringe s D) = Inr (e, rest)" by simp
    from pop [OF this, of G]
    have "fringe_size G (fringe s D) = entry_size G e + fringe_size G rest" .
    moreover have "0 < entry_size G e" by (simp add: entry_size_def)
    ultimately show ?case
      using 2(7) D by (auto simp: search_size_def)
  next
    case (3 slot G dir0 s D b e rest dist_v kv k v s1 s2 s3)
    define n where "n = length (g_nodes G)"
    from 3(2) have D: "D = 0 \<or> D = 1" by auto
    have size: "search_size G t =
        (n + 1) * unsettled G (dists t D) + (n + 1) * unsettled G (dists t (1 - D)) +
        fringe_size G (fringe t D) + fringe_size G (fringe t (1 - D))" for t
      unfolding n_def search_size_def using D by (auto simp: algebra_simps)
    have other: "1 - D \<noteq> D" using D by auto
    from 3(3,4) have "heappop (fringe s D) = Inr (e, rest)" by simp
    from pop [OF this, of G]
    have fs: "fringe_size G (fringe s D) = entry_size G e + fringe_size G rest" .
    have e: "e = (dist_v, k, v)" using 3(5,6) by auto
    note s1 = 3(7)
    note s2 = 3(9)
    have open_v: "dists s D v = None" using 3(8) unfolding s1 by simp
    from rlx [OF 3(11)] nb [of slot G D v]
    have d3: "dists s3 = dists s2" and f3: "fringe s3 (1 - D) = fringe s2 (1 - D)"
      and g3: "fringe_size G (fringe s3 D) \<le> fringe_size G (fringe s2 D) + n"
      using other unfolding n_def by auto
    have dD: "dists s3 D = (dists s D)(v \<mapsto> dist_v)" and dO: "dists s3 (1 - D) = dists s (1 - D)"
      unfolding d3 s2 s1 using other by simp_all
    have fO: "fringe s3 (1 - D) = fringe s (1 - D)" unfolding f3 s2 s1 using other by simp
    have fD: "fringe_size G (fringe s3 D) \<le> fringe_size G rest + n"
      using g3 unfolding s2 s1 by simp
    have lt: "search_size G s3 < search_size G s"
    proof (cases "v \<in> set (g_nodes G)")
      case True
      with settle [of G "dists s D" v dist_v] open_v
      have "unsettled G (dists s3 D) + 1 \<le> unsettled G (dists s D)" unfolding dD by simp
      then have "(n + 1) * (unsettled G (dists s3 D) + 1) \<le> (n + 1) * unsettled G (dists s D)"
        by (rule mult_le_mono2)
      then have "(n + 1) * unsettled G (dists s3 D) + (n + 1) \<le> (n + 1) * unsettled G (dists s D)"
        by (simp add: algebra_simps)
      moreover have "entry_size G e = 1" using True unfolding e entry_size_def by simp
      ultimately show ?thesis
        unfolding size [of s3] size [of s] dO fO using fD fs by linarith
    next
      case False
      from settle [of G "dists s D" v dist_v]
      have "unsettled G (dists s3 D) \<le> unsettled G (dists s D)" unfolding dD by simp
      then have "(n + 1) * unsettled G (dists s3 D) \<le> (n + 1) * unsettled G (dists s D)"
        by (rule mult_le_mono2)
      moreover have "entry_size G e = n + 2" using False unfolding e entry_size_def n_def by simp
      ultimately show ?thesis
        unfolding size [of s3] size [of s] dO fO using fD fs by linarith
    qed
    then show ?case by simp
  qed
qed

text \<open>
  \<open>bidirectional_dijkstra\<close>: the checks on the end points, the initial values of the
  variables, and the loop, entered with \<open>dir = 1\<close>.
\<close>

definition bidirectional_dijkstra ::
  "(node \<Rightarrow> nat) \<Rightarrow> digraph \<Rightarrow> node \<Rightarrow> node \<Rightarrow> py_error + real \<times> node list" where
  "bidirectional_dijkstra slot G source target =
     (if source \<notin> set (g_nodes G) \<or> target \<notin> set (g_nodes G) then Inl NodeNotFound
      else if source = target then Inr (0, [source])
      else bidirectional_loop slot G 1
             \<lparr>dists = (\<lambda>dir. Map.empty),
              paths = (\<lambda>dir. if dir = 0 then [source \<mapsto> [source]] else [target \<mapsto> [target]]),
              fringe = (\<lambda>dir. if dir = 0 then [(0, 0, source)] else [(0, 1, target)]),
              seen = (\<lambda>dir. if dir = 0 then [source \<mapsto> 0] else [target \<mapsto> 0]),
              counter = 2, finaldist = None, finalpath = []\<rparr>)"

text \<open>
  \<open>shortest_path\<close> for two end points and a weight:
  \<open>_, paths = nx.bidirectional_dijkstra(G, source, target, weight)\<close>.
\<close>

definition shortest_path :: "(node \<Rightarrow> nat) \<Rightarrow> digraph \<Rightarrow> node \<Rightarrow> node \<Rightarrow> py_error + node list" where
  "shortest_path slot G source target =
     (case bidirectional_dijkstra slot G source target of
        Inl err \<Rightarrow> Inl err
      | Inr (_, path) \<Rightarrow> Inr path)"

text \<open>
  \<open>construct_dag\<close>: the path found, or \<open>[start_node]\<close> under \<open>except nx.NetworkXNoPath\<close>;
  any other exception leaves the function.
\<close>

definition construct_dag ::
  "(node \<Rightarrow> nat) \<Rightarrow> vehicle \<Rightarrow> RSU list \<Rightarrow> nat \<Rightarrow> int \<Rightarrow> py_error + node list" where
  "construct_dag slot veh rsus horizon timestep =
     (case shortest_path slot (build_graph veh rsus horizon timestep)
             (Start, 0) (End, horizon + 1) of
        Inl NetworkXNoPath \<Rightarrow> Inr [(Start, 0)]
      | Inl err \<Rightarrow> Inl err
      | Inr path \<Rightarrow> Inr path)"

text \<open>Paths of a graph, and the sum of the weights along one.\<close>

fun is_path :: "digraph \<Rightarrow> node list \<Rightarrow> bool" where
  "is_path G [] = False"
| "is_path G [u] = (u \<in> set (g_nodes G))"
| "is_path G (u # v # p) =
     (u \<in> set (g_nodes G) \<and> g_weight G (u, v) \<noteq> None \<and> is_path G (v # p))"

fun path_weight :: "digraph \<Rightarrow> node list \<Rightarrow> real" where
  "path_weight G (u # v # p) =
     (case g_weight G (u, v) of None \<Rightarrow> 0 | Some w \<Rightarrow> w) + path_weight G (v # p)"
| "path_weight G p = 0"

section \<open>Two RSUs in range over the whole horizon\<close>

text \<open>
  Names for what \<open>construct_dag\<close> computes at tick \<open>t\<close> for one RSU: the node
  \<open>(rsu.id, t)\<close>, the test \<open>distance <= 400\<close> and \<open>potential_datarate\<close>, the predicted
  link quality whose negation weighs the edges into the node.
\<close>

definition rsu_node :: "RSU \<Rightarrow> nat \<Rightarrow> node" where
  "rsu_node rsu t = (Rsu (rsu_id rsu), t)"

definition in_range :: "vehicle \<Rightarrow> int \<Rightarrow> RSU \<Rightarrow> nat \<Rightarrow> bool" where
  "in_range veh timestep rsu t =
     (rsu_distance (predict_future_position_of veh (of_int (int t * timestep))) rsu \<le> 400)"

definition potential_datarate :: "vehicle \<Rightarrow> int \<Rightarrow> RSU \<Rightarrow> nat \<Rightarrow> real" where
  "potential_datarate veh timestep rsu t =
     1 / (1 + rsu_distance (predict_future_position_of veh (of_int (int t * timestep))) rsu)"

text \<open>
  For the roster \<open>[a, b]\<close> with both RSUs in range at every tick, the live set after
  tick \<open>t\<close> and the weights of the graph after \<open>n\<close> ticks.
\<close>

definition layer :: "RSU \<Rightarrow> RSU \<Rightarrow> nat \<Rightarrow> node list" where
  "layer a b t = (if t = 0 then [(Start, 0)] else [rsu_node b t, rsu_node a t])"

definition two_rsu_weight :: "vehicle \<Rightarrow> int \<Rightarrow> RSU \<Rightarrow> RSU \<Rightarrow> nat \<Rightarrow> node \<times> node \<Rightarrow> real option" where
  "two_rsu_weight veh timestep a b n e =
     (if 1 \<le> snd (snd e) \<and> snd (snd e) \<le> n \<and>
         snd e \<in> set (layer a b (snd (snd e))) \<and>
         fst e \<in> set (layer a b (snd (snd e) - 1))
      then Some (- potential_datarate veh timestep
                     (if fst (snd e) = Rsu (rsu_id a) then a else b) (snd (snd e)))
      else None)"

text \<open>
  The schedule that follows \<open>a\<close> before tick \<open>c\<close> and \<open>b\<close> from tick \<open>c\<close> on, from the
  tick after \<open>k\<close> to the end node, and the quality it sums.
\<close>

definition best_node :: "RSU \<Rightarrow> RSU \<Rightarrow> nat \<Rightarrow> nat \<Rightarrow> node" where
  "best_node a b c t = rsu_node (if t < c then a else b) t"

definition best_tail :: "RSU \<Rightarrow> RSU \<Rightarrow> nat \<Rightarrow> nat \<Rightarrow> nat \<Rightarrow> node list" where
  "best_tail a b c horizon k =
     map (best_node a b c) [Suc k..<Suc horizon] @ [(End, Suc horizon)]"

definition best_quality :: "vehicle \<Rightarrow> int \<Rightarrow> RSU \<Rightarrow> RSU \<Rightarrow> nat \<Rightarrow> nat \<Rightarrow> nat \<Rightarrow> real" where
  "best_quality veh timestep a b c horizon k =
     (\<Sum>t = Suc k..horizon. potential_datarate veh timestep (if t < c then a else b) t)"

definition two_rsu_final :: "vehicle \<Rightarrow> int \<Rightarrow> RSU \<Rightarrow> RSU \<Rightarrow> nat \<Rightarrow> node \<times> node \<Rightarrow> real option" where
  "two_rsu_final veh timestep a b horizon e =
     (if fst e \<in> set (layer a b horizon) \<and> snd e = (End, Suc horizon) then Some 0
      else two_rsu_weight veh timestep a b horizon e)"

text \<open>
  Slots for the nodes of a ten-tick horizon with the two identities 1 and 2: the hash of
  the tuple \<open>(id, t)\<close> modulo 8, the size of the table of a set of two members, as
  CPython 3.11 computes it on a 64-bit machine.
\<close>

definition example_slot :: "node \<Rightarrow> nat" where
  "example_slot v =
     (case fst v of
        Rsu i \<Rightarrow> hd (drop (snd v - 1)
                       (if i = 1 then [2, 3, 4, 6, 7, 1, 2, 3, 5, 6]
                        else [5, 7, 0, 2, 3, 4, 6, 7, 1, 2]) @ [0])
      | _ \<Rightarrow> 0)"

section \<open>Properties of the link-quality model\<close>

lemma rsu_distance_nonneg: "0 \<le> rsu_distance pos rsu"
  by (simp add: rsu_distance_def)

lemma strength_antimono:
  assumes "0 \<le> d1" "d1 \<le> d2" "0 \<le> p"
  shows "strength p d2 b \<le> strength p d1 b"
proof (cases "d1 = 0")
  case True
  then show ?thesis using assms by (auto simp: strength_def divide_le_eq)
next
  case False
  then have pos: "0 < d1" "0 < d2" using assms by auto
  have "d1 * p \<le> d2 * p" using assms by (simp add: mult_right_mono)
  moreover have "0 \<le> d1 * p" using assms by simp
  ultimately have "1 / (1 + d2 * p) \<le> 1 / (1 + d1 * p)"
    by (intro frac_le) auto
  moreover have "1 / (1 + d2) \<le> 1 / (1 + d1)"
    using pos assms by (intro frac_le) auto
  ultimately show ?thesis using pos by (auto simp: strength_def)
qed

lemma strength_blocked_le:
  assumes "0 \<le> d" "1 \<le> p"
  shows "strength p d True \<le> strength p d False"
proof (cases "d = 0")
  case True
  then show ?thesis by (simp add: strength_def)
next
  case False
  then have "0 < d" using assms by simp
  have "d \<le> d * p" using assms by (simp add: mult_le_cancel_left1)
  then have "1 / (1 + d * p) \<le> 1 / (1 + d)"
    using \<open>0 < d\<close> by (intro frac_le) auto
  then show ?thesis using False by (auto simp: strength_def)
qed

lemma strength_bounds:
  assumes "0 \<le> d" "0 \<le> p"
  shows "0 \<le> strength p d b" "strength p d b \<le> 1"
  using assms by (auto simp: strength_def divide_le_eq add_nonneg_nonneg)


lemma calculate_signal_strength_smart_bounds:
  "0 \<le> calculate_signal_strength_smart sim pos rsu"
  "calculate_signal_strength_smart sim pos rsu \<le> 1"
  by (simp_all add: calculate_signal_strength_smart_def strength_bounds rsu_distance_nonneg)

text \<open>
  Claim C9. With the obstruction state fixed, the strength does not grow as the distance
  grows; at equal distance a blocked link is no stronger than a free one when the
  penalty is at least 1; and the strength of a non-negative distance lies between 0 and
  1. The last holds of the source function at every position, since its distance is a
  square root.
\<close>

theorem strength_monotone_bounded:
  assumes "0 \<le> d1" and "d1 \<le> d2" and "1 \<le> block_penalty"
  shows "strength block_penalty d2 b \<le> strength block_penalty d1 b \<and>
         strength block_penalty d1 True \<le> strength block_penalty d1 False \<and>
         0 \<le> strength block_penalty d1 b \<and> strength block_penalty d1 b \<le> 1 \<and>
         0 \<le> calculate_signal_strength_smart sim pos rsu \<and>
         calculate_signal_strength_smart sim pos rsu \<le> 1"
proof -
  have p0: "0 \<le> block_penalty" using assms(3) by simp
  show ?thesis
    using strength_antimono [OF assms(1) assms(2) p0, of b]
      strength_blocked_le [OF assms(1) assms(3)]
      strength_bounds [OF assms(1) p0, of b]
      calculate_signal_strength_smart_bounds [of sim pos rsu]
    by simp
qed

theorem strength_monotone_bounded_witness:
  "strength 5 200 True \<le> strength 5 100 True \<and>
   strength 5 100 True \<le> strength 5 100 False \<and>
   0 \<le> strength 5 100 True \<and> strength 5 100 True \<le> 1"
  using strength_monotone_bounded [of 100 200 5 True "[]" "(0, 0)" "\<lparr>rsu_id = 1, rsu_x = 0, rsu_y = 0\<rparr>"]
  by simp

section \<open>The strength formula\<close>

lemma rsu_distance_x_axis: "rsu_y rsu = b \<Longrightarrow> rsu_distance (a, b) rsu = \<bar>a - rsu_x rsu\<bar>"
  by (simp add: rsu_distance_def)

lemma euclid_x_axis: "euclid (a, c) (b, c) = \<bar>a - b\<bar>"
  by (simp add: euclid_def)

lemma euclid_rsu: "euclid pos (rsu_x rsu, rsu_y rsu) = rsu_distance pos rsu"
  by (simp add: euclid_def rsu_distance_def)

lemma penalise_eq:
  "penalise pos rsu obstacles d =
     d * (3 / 2) ^ length (filter (is_blocking_los_b_aware pos rsu) obstacles)"
  by (induction obstacles arbitrary: d) simp_all

lemma blocking_needs_distance:
  "is_blocking_los_b_aware pos rsu ob \<Longrightarrow> 0 < rsu_distance pos rsu"
proof -
  assume "is_blocking_los_b_aware pos rsu ob"
  then have "euclid pos ob < rsu_distance pos rsu"
    by (simp add: is_blocking_los_b_aware_def euclid_rsu)
  moreover have "0 \<le> euclid pos ob" by (simp add: euclid_def)
  ultimately show ?thesis by simp
qed

text \<open>
  Claim C5, as amended. The strength is 1 at distance 0 and otherwise
  \<open>max 0 (1 / (1 + effective))\<close>. In \<open>run_simulation_smart.py\<close> the effective distance
  is the distance times 5 when the link is blocked, the penalty applied once. In
  \<open>run_simulation_b-aware.py\<close> the factor 1.5 is applied once for every blocking
  obstacle, so the effective distance is the distance times 1.5 to the number of
  blocking obstacles. Distance 100, obstructed, penalty 5 gives 1/501.
\<close>

theorem signal_strength_formula:
  "calculate_signal_strength_smart sim pos rsu =
     (if rsu_distance pos rsu = 0 then 1
      else max 0 (1 / (1 + rsu_distance pos rsu *
                             (if check_for_obstacles_smart sim pos rsu then 5 else 1)))) \<and>
   calculate_signal_strength_b_aware pos rsu obstacles =
     (if rsu_distance pos rsu = 0 then 1
      else max 0 (1 / (1 + rsu_distance pos rsu *
             (3 / 2) ^ length (filter (is_blocking_los_b_aware pos rsu) obstacles)))) \<and>
   calculate_signal_strength_smart
     [\<lparr>veh_id = ''v7'', veh_pos = (50, 0), veh_speed = 0, veh_angle = 0,
       veh_length = 5, veh_width = 2\<rparr>]
     (100, 0) \<lparr>rsu_id = 1, rsu_x = 0, rsu_y = 0\<rparr> = 1 / 501"
proof (intro conjI)
  show "calculate_signal_strength_smart sim pos rsu =
     (if rsu_distance pos rsu = 0 then 1
      else max 0 (1 / (1 + rsu_distance pos rsu *
                             (if check_for_obstacles_smart sim pos rsu then 5 else 1))))"
    by (simp add: calculate_signal_strength_smart_def strength_def)
next
  have d0: "0 \<le> rsu_distance pos rsu" by (rule rsu_distance_nonneg)
  have k: "0 < (3 / 2 :: real) ^ n" for n by simp
  show "calculate_signal_strength_b_aware pos rsu obstacles =
     (if rsu_distance pos rsu = 0 then 1
      else max 0 (1 / (1 + rsu_distance pos rsu *
             (3 / 2) ^ length (filter (is_blocking_los_b_aware pos rsu) obstacles))))"
  proof (cases "rsu_distance pos rsu = 0")
    case True
    then show ?thesis
      by (simp add: calculate_signal_strength_b_aware_def penalise_eq)
  next
    case False
    then have "0 < rsu_distance pos rsu" using d0 by simp
    then have "0 < rsu_distance pos rsu *
        (3 / 2) ^ length (filter (is_blocking_los_b_aware pos rsu) obstacles)"
      using k by (intro mult_pos_pos) auto
    then show ?thesis using False
      by (simp add: calculate_signal_strength_b_aware_def penalise_eq Let_def)
  qed
next
  show "calculate_signal_strength_smart
     [\<lparr>veh_id = ''v7'', veh_pos = (50, 0), veh_speed = 0, veh_angle = 0,
       veh_length = 5, veh_width = 2\<rparr>]
     (100, 0) \<lparr>rsu_id = 1, rsu_x = 0, rsu_y = 0\<rparr> = 1 / 501"
    by (simp add: calculate_signal_strength_smart_def strength_def rsu_distance_x_axis
        check_for_obstacles_smart_def)
qed

text \<open>
  The claim as first stated fails on \<open>run_simulation_b-aware.py\<close>: with two obstacles
  between the vehicle and the RSU the link is blocked, yet the strength is 1/226 and not
  the \<open>max 0 (1 / (1 + 100 * 1.5))\<close> of a penalty applied once.
\<close>

theorem b_aware_penalty_compounds:
  "is_blocking_los_b_aware (100, 0) \<lparr>rsu_id = 1, rsu_x = 0, rsu_y = 0\<rparr> (50, 0) \<and>
   rsu_distance (100, 0) \<lparr>rsu_id = 1, rsu_x = 0, rsu_y = 0\<rparr> = 100 \<and>
   calculate_signal_strength_b_aware (100, 0) \<lparr>rsu_id = 1, rsu_x = 0, rsu_y = 0\<rparr>
     [(50, 0), (60, 0)] = 1 / 226 \<and>
   calculate_signal_strength_b_aware (100, 0) \<lparr>rsu_id = 1, rsu_x = 0, rsu_y = 0\<rparr>
     [(50, 0), (60, 0)] \<noteq> max 0 (1 / (1 + 100 * 1.5))"
  by (simp add: calculate_signal_strength_b_aware_def is_blocking_los_b_aware_def
      euclid_rsu rsu_distance_x_axis euclid_x_axis)

section \<open>Trajectory prediction\<close>

lemma predict_formula:
  "predict_future_position pos speed angle t =
     (fst pos + speed * t * cos (angle * pi / 180), snd pos + speed * t * sin (angle * pi / 180))"
  by (simp add: predict_future_position_def radians_def)

lemma predict_displacement:
  "euclid (predict_future_position pos speed angle t) pos = \<bar>speed * t\<bar>"
proof -
  have "(speed * t * cos a)\<^sup>2 + (speed * t * sin a)\<^sup>2 = (speed * t)\<^sup>2" for a
  proof -
    have "(speed * t * cos a)\<^sup>2 + (speed * t * sin a)\<^sup>2 = (speed * t)\<^sup>2 * ((cos a)\<^sup>2 + (sin a)\<^sup>2)"
      by (simp only: power_mult_distrib distrib_left)
    then show ?thesis by (simp only: cos_squared_eq, simp)
  qed
  then show ?thesis
    by (simp add: predict_future_position_def euclid_def Let_def)
qed

lemma predict_negative_speed:
  "predict_future_position pos (- speed) angle t =
     (2 * fst pos - fst (predict_future_position pos speed angle t),
      2 * snd pos - snd (predict_future_position pos speed angle t))"
  by (simp add: predict_future_position_def Let_def)

lemma predict_heading_wraps:
  "predict_future_position pos speed (angle + 360) t = predict_future_position pos speed angle t"
proof -
  have "radians (angle + 360) = radians angle + 2 * pi"
    by (simp add: radians_def algebra_simps)
  then show ?thesis
    by (simp add: predict_future_position_def)
qed

lemma range_up_one: "py_range 1 (10 + 1) 1 = Inr (range_up 1 11 1)"
  by (simp add: py_range_def)

lemma estimate_smart_default:
  "\<exists>d. estimate_connection_duration_smart veh rsu 10 1 = Inr d"
  by (simp add: estimate_connection_duration_smart_def estimate_loop_def py_range_def)

lemma smart_loop_total: "\<exists>vars'. smart_loop sim veh p rsus vars = Inr vars'"
proof (induction rsus arbitrary: vars)
  case Nil
  then show ?case by simp
next
  case (Cons rsu rsus)
  obtain d where d: "estimate_connection_duration_smart veh rsu 10 1 = Inr d"
    using estimate_smart_default by blast
  show ?case
    using Cons.IH by (simp add: d Let_def)
qed

lemmas eval_defs = smart_decision_def estimate_connection_duration_smart_def estimate_loop_def
  py_range_def out_of_range_def predict_future_position_of_def predict_future_position_def
  radians_def rsu_distance_x_axis calculate_signal_strength_smart_def strength_def
  check_for_obstacles_smart_def

section \<open>Obstruction by the subject itself\<close>

text \<open>
  Claim C8 fails on \<open>run_simulation_smart.py\<close>, whose \<open>check_for_obstacles\<close> does not
  skip the subject: a parked vehicle that is the only active one is reported blocked
  towards the RSU, and its strength is 1/501 instead of 1/101. The baseline driver, which
  skips the subject, reports the same link free.
\<close>

theorem smart_sole_vehicle_blocked:
  "check_for_obstacles_smart
     [\<lparr>veh_id = ''v1'', veh_pos = (100, 0), veh_speed = 0, veh_angle = 0,
       veh_length = 5, veh_width = 2\<rparr>]
     (predict_future_position (100, 0) 0 0 2) \<lparr>rsu_id = 1, rsu_x = 0, rsu_y = 0\<rparr> \<and>
   calculate_signal_strength_smart
     [\<lparr>veh_id = ''v1'', veh_pos = (100, 0), veh_speed = 0, veh_angle = 0,
       veh_length = 5, veh_width = 2\<rparr>]
     (predict_future_position (100, 0) 0 0 2) \<lparr>rsu_id = 1, rsu_x = 0, rsu_y = 0\<rparr> = 1 / 501 \<and>
   \<not> check_for_obstacles_base
     [\<lparr>veh_id = ''v1'', veh_pos = (100, 0), veh_speed = 0, veh_angle = 0,
       veh_length = 5, veh_width = 2\<rparr>]
     (100, 0) \<lparr>rsu_id = 1, rsu_x = 0, rsu_y = 0\<rparr> ''v1'' \<and>
   calculate_signal_strength_base
     [\<lparr>veh_id = ''v1'', veh_pos = (100, 0), veh_speed = 0, veh_angle = 0,
       veh_length = 5, veh_width = 2\<rparr>]
     (100, 0) \<lparr>rsu_id = 1, rsu_x = 0, rsu_y = 0\<rparr> ''v1'' = 1 / 101"
  by (simp add: eval_defs check_for_obstacles_base_def calculate_signal_strength_base_def)

section \<open>The logged row of the smart driver\<close>

text \<open>
  Claim C7 fails on \<open>run_simulation_smart.py\<close>: the row is written from the loop
  variables, which hold the values of the last RSU of the roster. With the chosen RSU 1
  at distance 10 and RSU 2 at distance 100 listed after it, the row names RSU 1 with its
  score 10/51, but its strength field is the 1/501 of RSU 2; the strength computed for
  RSU 1 is 1/51.
\<close>

theorem smart_row_logs_last_rsu:
  "smart_decision
     [\<lparr>veh_id = ''v1'', veh_pos = (0, 0), veh_speed = 0, veh_angle = 0,
       veh_length = 5, veh_width = 2\<rparr>] 3
     \<lparr>veh_id = ''v1'', veh_pos = (0, 0), veh_speed = 0, veh_angle = 0,
       veh_length = 5, veh_width = 2\<rparr>
     [\<lparr>rsu_id = 1, rsu_x = 10, rsu_y = 0\<rparr>, \<lparr>rsu_id = 2, rsu_x = 100, rsu_y = 0\<rparr>] =
   Inr (Some \<lparr>row_step = 3, row_vehicle = ''v1'', row_rsu = 1, row_signal = 1 / 501,
               row_duration = 10, row_score = 10 / 51\<rparr>) \<and>
   calculate_signal_strength_smart
     [\<lparr>veh_id = ''v1'', veh_pos = (0, 0), veh_speed = 0, veh_angle = 0,
       veh_length = 5, veh_width = 2\<rparr>]
     (0, 0) \<lparr>rsu_id = 1, rsu_x = 10, rsu_y = 0\<rparr> = 1 / 51 \<and>
   calculate_signal_strength_smart
     [\<lparr>veh_id = ''v1'', veh_pos = (0, 0), veh_speed = 0, veh_angle = 0,
       veh_length = 5, veh_width = 2\<rparr>]
     (0, 0) \<lparr>rsu_id = 2, rsu_x = 100, rsu_y = 0\<rparr> = 1 / 501"
  by (simp add: eval_defs)

section \<open>Greedy selection at the current position\<close>

lemma strength_pos: "0 \<le> d \<Longrightarrow> 0 \<le> p \<Longrightarrow> 0 < strength p d b"
  by (auto simp: strength_def max_def add_nonneg_nonneg intro!: divide_pos_pos add_pos_nonneg)

lemma calculate_signal_strength_base_pos:
  "0 < calculate_signal_strength_base sim pos rsu vid"
  by (simp add: calculate_signal_strength_base_def strength_pos rsu_distance_nonneg)

lemma greedy_loop_append:
  "greedy_loop sim pos vid (xs @ ys) st =
     greedy_loop sim pos vid ys (greedy_loop sim pos vid xs st)"
proof (induction xs arbitrary: st)
  case Nil
  then show ?case by simp
next
  case (Cons x xs)
  obtain b s where st: "st = (b, s)" by (cases st)
  show ?case by (simp add: st Cons.IH Let_def)
qed

lemma greedy_loop_first_max:
  assumes "rsus \<noteq> []"
  shows "\<exists>i<length rsus.
           greedy_loop sim pos vid rsus (None, 0) =
             (Some (rsus ! i), calculate_signal_strength_base sim pos (rsus ! i) vid) \<and>
           (\<forall>j<length rsus. calculate_signal_strength_base sim pos (rsus ! j) vid
                               \<le> calculate_signal_strength_base sim pos (rsus ! i) vid) \<and>
           (\<forall>j<i. calculate_signal_strength_base sim pos (rsus ! j) vid
                     < calculate_signal_strength_base sim pos (rsus ! i) vid)"
  using assms
proof (induction rsus rule: rev_induct)
  case Nil
  then show ?case by simp
next
  case (snoc x xs)
  let ?s = "\<lambda>r. calculate_signal_strength_base sim pos r vid"
  show ?case
  proof (cases "xs = []")
    case True
    then show ?thesis
      using calculate_signal_strength_base_pos [of sim pos x vid] by simp
  next
    case False
    from snoc.IH [OF False] obtain i where i: "i < length xs"
      and res: "greedy_loop sim pos vid xs (None, 0) = (Some (xs ! i), ?s (xs ! i))"
      and mx: "\<forall>j<length xs. ?s (xs ! j) \<le> ?s (xs ! i)"
      and fst: "\<forall>j<i. ?s (xs ! j) < ?s (xs ! i)"
      by blast
    show ?thesis
    proof (cases "?s x > ?s (xs ! i)")
      case True
      have "greedy_loop sim pos vid (xs @ [x]) (None, 0) = (Some x, ?s x)"
        using True by (simp add: greedy_loop_append res)
      moreover have "\<forall>j<length (xs @ [x]). ?s ((xs @ [x]) ! j) \<le> ?s x"
        using mx True by (auto simp: nth_append less_Suc_eq intro: order_trans less_imp_le)
      moreover have "\<forall>j<length xs. ?s ((xs @ [x]) ! j) < ?s x"
        using mx True by (auto simp: nth_append intro: le_less_trans)
      ultimately show ?thesis
        by (intro exI [of _ "length xs"]) simp
    next
      case False
      have "greedy_loop sim pos vid (xs @ [x]) (None, 0) = (Some (xs ! i), ?s (xs ! i))"
        using False by (simp add: greedy_loop_append res)
      moreover have "\<forall>j<length (xs @ [x]). ?s ((xs @ [x]) ! j) \<le> ?s (xs ! i)"
        using mx False by (auto simp: nth_append less_Suc_eq)
      moreover have "\<forall>j<i. ?s ((xs @ [x]) ! j) < ?s (xs ! i)"
        using fst i by (auto simp: nth_append)
      ultimately show ?thesis
        using i by (intro exI [of _ i]) (simp add: nth_append)
    qed
  qed
qed

text \<open>
  Claim C6, as amended. For a roster that is not empty, the baseline loop ends with the
  RSU at the least roster index whose strength is the maximum over the roster: no RSU is
  stronger, and every RSU listed before it is strictly weaker. That RSU has the lowest
  identity among the strongest ones when the roster is listed by strictly growing
  identity.
\<close>

theorem greedy_current_first_max:
  assumes "rsus \<noteq> []"
  shows "\<exists>i<length rsus.
           greedy_loop sim pos vid rsus (None, 0) =
             (Some (rsus ! i), calculate_signal_strength_base sim pos (rsus ! i) vid) \<and>
           (\<forall>j<length rsus. calculate_signal_strength_base sim pos (rsus ! j) vid
                               \<le> calculate_signal_strength_base sim pos (rsus ! i) vid) \<and>
           (\<forall>j<i. calculate_signal_strength_base sim pos (rsus ! j) vid
                     < calculate_signal_strength_base sim pos (rsus ! i) vid) \<and>
           (sorted_wrt (<) (map rsu_id rsus) \<longrightarrow>
              (\<forall>j<length rsus.
                 calculate_signal_strength_base sim pos (rsus ! j) vid =
                 calculate_signal_strength_base sim pos (rsus ! i) vid \<longrightarrow>
                 rsu_id (rsus ! i) \<le> rsu_id (rsus ! j)))"
proof -
  let ?s = "\<lambda>r. calculate_signal_strength_base sim pos r vid"
  from greedy_loop_first_max [OF assms, of sim pos vid] obtain i where i: "i < length rsus"
    and res: "greedy_loop sim pos vid rsus (None, 0) = (Some (rsus ! i), ?s (rsus ! i))"
    and mx: "\<forall>j<length rsus. ?s (rsus ! j) \<le> ?s (rsus ! i)"
    and fst: "\<forall>j<i. ?s (rsus ! j) < ?s (rsus ! i)"
    by blast
  have "rsu_id (rsus ! i) \<le> rsu_id (rsus ! j)"
    if srt: "sorted_wrt (<) (map rsu_id rsus)" and j: "j < length rsus"
      and eq: "?s (rsus ! j) = ?s (rsus ! i)" for j
  proof -
    have "\<not> j < i" using fst eq by auto
    then have "i = j \<or> i < j" by auto
    then show ?thesis
    proof
      assume "i = j" then show ?thesis by simp
    next
      assume "i < j"
      then have "map rsu_id rsus ! i < map rsu_id rsus ! j"
        using srt j by (simp add: sorted_wrt_iff_nth_less)
      then show ?thesis using i j by simp
    qed
  qed
  then show ?thesis using i res mx fst by blast
qed

theorem greedy_current_first_max_witness:
  "[\<lparr>rsu_id = 1, rsu_x = 10, rsu_y = 0\<rparr>, \<lparr>rsu_id = 2, rsu_x = - 10, rsu_y = 0\<rparr>] \<noteq> [] \<and>
   sorted_wrt (<) (map rsu_id
     [\<lparr>rsu_id = 1, rsu_x = 10, rsu_y = 0\<rparr>, \<lparr>rsu_id = 2, rsu_x = - 10, rsu_y = 0\<rparr>]) \<and>
   (\<exists>s. greedy_loop [] (0, 0) ''v1''
       [\<lparr>rsu_id = 1, rsu_x = 10, rsu_y = 0\<rparr>, \<lparr>rsu_id = 2, rsu_x = - 10, rsu_y = 0\<rparr>]
       (None, 0) = (Some \<lparr>rsu_id = 1, rsu_x = 10, rsu_y = 0\<rparr>, s))"
proof -
  let ?rs = "[\<lparr>rsu_id = 1, rsu_x = 10, rsu_y = 0\<rparr>, \<lparr>rsu_id = 2, rsu_x = - 10, rsu_y = 0\<rparr>]"
  let ?s = "\<lambda>r. calculate_signal_strength_base [] (0, 0) r ''v1''"
  have ne: "?rs \<noteq> []" by simp
  have srt: "sorted_wrt (<) (map rsu_id ?rs)" by simp
  have tie: "?s (?rs ! 0) = ?s (?rs ! 1)"
    by (simp add: calculate_signal_strength_base_def strength_def rsu_distance_x_axis
        check_for_obstacles_base_def)
  from greedy_current_first_max [OF ne, of "[]" "(0, 0)" "''v1''"] obtain i
    where i: "i < length ?rs"
      and res: "greedy_loop [] (0, 0) ''v1'' ?rs (None, 0) = (Some (?rs ! i), ?s (?rs ! i))"
      and before: "\<forall>j<i. ?s (?rs ! j) < ?s (?rs ! i)"
    by blast
  have "i = 0"
  proof (rule ccontr)
    assume "i \<noteq> 0"
    with i have i1: "i = 1" by simp
    with before have "?s (?rs ! 0) < ?s (?rs ! 1)" by simp
    with tie show False by simp
  qed
  with res have "greedy_loop [] (0, 0) ''v1'' ?rs (None, 0) =
      (Some \<lparr>rsu_id = 1, rsu_x = 10, rsu_y = 0\<rparr>, ?s (?rs ! 0))" by simp
  then show ?thesis using ne srt by blast
qed

text \<open>
  The claim as first stated fails on a roster that is not listed by identity: RSU 2,
  listed first, and RSU 1 are both at distance 10, and RSU 2 is chosen.
\<close>

theorem greedy_tie_follows_roster_order:
  "greedy_decision
     [\<lparr>veh_id = ''v1'', veh_pos = (0, 0), veh_speed = 0, veh_angle = 0,
       veh_length = 5, veh_width = 2\<rparr>] 3
     \<lparr>veh_id = ''v1'', veh_pos = (0, 0), veh_speed = 0, veh_angle = 0,
       veh_length = 5, veh_width = 2\<rparr>
     [\<lparr>rsu_id = 2, rsu_x = 10, rsu_y = 0\<rparr>, \<lparr>rsu_id = 1, rsu_x = - 10, rsu_y = 0\<rparr>] =
     Some (3, ''v1'', 2, 1 / 11) \<and>
   calculate_signal_strength_base
     [\<lparr>veh_id = ''v1'', veh_pos = (0, 0), veh_speed = 0, veh_angle = 0,
       veh_length = 5, veh_width = 2\<rparr>] (0, 0) \<lparr>rsu_id = 1, rsu_x = - 10, rsu_y = 0\<rparr> ''v1'' = 1 / 11 \<and>
   calculate_signal_strength_base
     [\<lparr>veh_id = ''v1'', veh_pos = (0, 0), veh_speed = 0, veh_angle = 0,
       veh_length = 5, veh_width = 2\<rparr>] (0, 0) \<lparr>rsu_id = 2, rsu_x = 10, rsu_y = 0\<rparr> ''v1'' = 1 / 11"
  by (simp add: greedy_decision_def rsu_distance_x_axis calculate_signal_strength_base_def
     strength_def check_for_obstacles_base_def)


section \<open>The rollout estimate of the connection duration\<close>

declare range_up.simps [simp del]

lemma range_up_step:
  "0 < s \<Longrightarrow> i < stop \<Longrightarrow> range_up i stop s = i # range_up (i + s) stop s"
  by (subst range_up.simps) simp

lemma range_up_done: "\<not> (0 < s \<and> i < stop) \<Longrightarrow> range_up i stop s = []"
  by (subst range_up.simps) simp

lemma dvd_shift: "(s::int) dvd (u - (i + s)) \<Longrightarrow> s dvd (u - i)"
proof -
  assume "s dvd (u - (i + s))"
  then obtain k where "u - (i + s) = s * k" by (auto simp: dvd_def)
  then have "u - i = s * (k + 1)" by (simp add: algebra_simps)
  then show ?thesis by (rule dvdI)
qed

lemma rollout_lower: "0 \<le> s \<Longrightarrow> acc \<le> rollout lost s ts acc"
proof (induction ts arbitrary: acc)
  case Nil
  then show ?case by simp
next
  case (Cons t ts)
  from Cons.IH [OF Cons.prems, of "acc + s"] Cons.prems show ?case by simp
qed

lemma rollout_range_upper:
  "0 < s \<Longrightarrow> i < stop \<Longrightarrow> rollout lost s (range_up i stop s) acc \<le> acc + (stop - i) + s - 1"
proof (induction i stop s arbitrary: acc rule: range_up.induct)
  case (1 i stop step)
  have u: "range_up i stop step = i # range_up (i + step) stop step"
    using "1.prems" by (intro range_up_step)
  show ?case
  proof (cases "i + step < stop")
    case True
    from "1.IH" [of "acc + step"] "1.prems" True
    have "rollout lost step (range_up (i + step) stop step) (acc + step)
            \<le> acc + step + (stop - (i + step)) + step - 1"
      by simp
    then show ?thesis using "1.prems" by (simp add: u)
  next
    case False
    then have "range_up (i + step) stop step = []" by (simp add: range_up_done)
    then show ?thesis using "1.prems" by (simp add: u)
  qed
qed

lemma rollout_first_lost:
  "0 < s \<Longrightarrow> i \<le> t \<Longrightarrow> t < stop \<Longrightarrow> s dvd (t - i) \<Longrightarrow> lost t \<Longrightarrow>
   (\<forall>u. i \<le> u \<and> u < t \<and> s dvd (u - i) \<longrightarrow> \<not> lost u) \<Longrightarrow>
   rollout lost s (range_up i stop s) acc = acc + (t - i)"
proof (induction i stop s arbitrary: acc rule: range_up.induct)
  case (1 i stop step)
  have istop: "i < stop" using "1.prems" by simp
  have u: "range_up i stop step = i # range_up (i + step) stop step"
    using "1.prems"(1) istop by (intro range_up_step)
  show ?case
  proof (cases "t = i")
    case True
    then show ?thesis using "1.prems"(5) by (simp add: u)
  next
    case False
    then have lt: "i < t" using "1.prems" by simp
    obtain k where k: "t - i = step * k" using "1.prems"(4) by (auto simp: dvd_def)
    have "0 < step * k" using lt k by simp
    then have "0 < k" using "1.prems"(1) by (simp add: zero_less_mult_iff)
    then have "step * 1 \<le> step * k" using "1.prems"(1) by (intro mult_left_mono) auto
    then have ge: "i + step \<le> t" using k by simp
    have "t - (i + step) = step * (k - 1)" using k by (simp add: algebra_simps)
    then have dv: "step dvd (t - (i + step))" by (rule dvdI)
    have notlost: "\<not> lost i" using "1.prems"(6) lt by simp
    have later: "\<forall>u. i + step \<le> u \<and> u < t \<and> step dvd (u - (i + step)) \<longrightarrow> \<not> lost u"
    proof (intro allI impI)
      fix u assume u: "i + step \<le> u \<and> u < t \<and> step dvd (u - (i + step))"
      then have "step dvd (u - i)" by (simp add: dvd_shift)
      then show "\<not> lost u" using "1.prems"(6) u "1.prems"(1) by simp
    qed
    from "1.IH" [OF _ "1.prems"(1) ge "1.prems"(3) dv "1.prems"(5) later, of "acc + step"]
      "1.prems"(1) istop
    have "rollout lost step (range_up (i + step) stop step) (acc + step)
            = acc + step + (t - (i + step))" by simp
    then show ?thesis using notlost by (simp add: u)
  qed
qed

lemma rollout_eq_takeWhile:
  "rollout lost s ts acc = acc + s * int (length (takeWhile (\<lambda>t. \<not> lost t) ts))"
  by (induction ts arbitrary: acc) (simp_all add: algebra_simps)

lemma range_up_members:
  "0 < s \<Longrightarrow> t \<in> set (range_up i stop s) \<Longrightarrow> i \<le> t \<and> t < stop \<and> s dvd (t - i)"
proof (induction i stop s rule: range_up.induct)
  case (1 i stop step)
  show ?case
  proof (cases "i < stop")
    case True
    have u: "range_up i stop step = i # range_up (i + step) stop step"
      using "1.prems"(1) True by (intro range_up_step)
    from "1.prems"(2) have "t = i \<or> t \<in> set (range_up (i + step) stop step)"
      by (simp add: u)
    then show ?thesis
    proof
      assume "t = i" then show ?thesis using True by simp
    next
      assume m: "t \<in> set (range_up (i + step) stop step)"
      from "1.IH" [OF _ "1.prems"(1) m] "1.prems"(1) True
      have h: "i + step \<le> t \<and> t < stop \<and> step dvd (t - (i + step))" by simp
      then have "step dvd (t - i)" by (simp add: dvd_shift)
      then show ?thesis using h "1.prems"(1) by simp
    qed
  next
    case False
    then show ?thesis using "1.prems" by (simp add: range_up_done)
  qed
qed

lemma length_range_up:
  "0 < s \<Longrightarrow> i \<le> stop \<Longrightarrow> int (length (range_up i stop s)) = (stop - i + s - 1) div s"
proof (induction i stop s rule: range_up.induct)
  case (1 i stop step)
  show ?case
  proof (cases "i < stop")
    case False
    then have "i = stop" using "1.prems" by simp
    then show ?thesis using "1.prems" by (simp add: range_up_done)
  next
    case True
    have u: "range_up i stop step = i # range_up (i + step) stop step"
      using "1.prems"(1) True by (intro range_up_step)
    have split: "(stop - i + step - 1) div step = (stop - i - 1) div step + 1"
    proof -
      have "(stop - i - 1 + step) div step = (stop - i - 1) div step + 1"
        using "1.prems"(1) div_add_self2 [of step "stop - i - 1"] by simp
      moreover have "stop - i + step - 1 = stop - i - 1 + step" by simp
      ultimately show ?thesis by (simp only:)
    qed
    show ?thesis
    proof (cases "i + step \<le> stop")
      case le: True
      from "1.IH" [OF _ "1.prems"(1) le] "1.prems"(1) True
      have "int (length (range_up (i + step) stop step)) = (stop - (i + step) + step - 1) div step"
        by simp
      then show ?thesis using split by (simp add: u)
    next
      case gt: False
      then have e: "range_up (i + step) stop step = []" by (simp add: range_up_done)
      have "0 \<le> stop - i - 1" "stop - i - 1 < step" using True gt by simp_all
      then have "(stop - i - 1) div step = 0" by (simp add: div_pos_pos_trivial)
      then show ?thesis using split e by (simp add: u)
    qed
  qed
qed

lemma rollout_none_lost:
  assumes "0 < s" "i \<le> stop"
    and "\<forall>u. i \<le> u \<and> u < stop \<and> s dvd (u - i) \<longrightarrow> \<not> lost u"
  shows "rollout lost s (range_up i stop s) acc = acc + s * ((stop - i + s - 1) div s)"
proof -
  have "\<forall>t \<in> set (range_up i stop s). \<not> lost t"
    using assms range_up_members [OF assms(1)] by blast
  then have tw: "takeWhile (\<lambda>t. \<not> lost t) (range_up i stop s) = range_up i stop s"
    by (simp add: takeWhile_eq_all_conv)
  show ?thesis
    unfolding rollout_eq_takeWhile tw length_range_up [OF assms(1) assms(2)] ..
qed

lemma estimate_loop_char:
  assumes "1 \<le> step_size" "0 \<le> max_duration"
  shows "\<exists>d. estimate_loop lost max_duration step_size = Inr d \<and>
           0 \<le> d \<and> d \<le> max_duration + step_size - 1 \<and>
           (step_size = 1 \<longrightarrow> d \<le> max_duration) \<and>
           (\<forall>t. 1 \<le> t \<and> t \<le> max_duration \<and> step_size dvd (t - 1) \<and> lost t \<and>
                (\<forall>u. 1 \<le> u \<and> u < t \<and> step_size dvd (u - 1) \<longrightarrow> \<not> lost u)
                \<longrightarrow> d = t - 1) \<and>
           ((\<forall>t. 1 \<le> t \<and> t \<le> max_duration \<and> step_size dvd (t - 1) \<longrightarrow> \<not> lost t)
              \<longrightarrow> d = step_size * ((max_duration + step_size - 1) div step_size)) \<and>
           (lost 1 \<longrightarrow> d = 0)"
proof -
  let ?ts = "range_up 1 (max_duration + 1) step_size"
  let ?d = "rollout lost step_size ?ts 0"
  have s: "0 < step_size" using assms by simp
  have eq: "estimate_loop lost max_duration step_size = Inr ?d"
    using s by (simp add: estimate_loop_def py_range_def)
  have lo: "0 \<le> ?d" using rollout_lower [of step_size 0 lost ?ts] s by simp
  have up: "?d \<le> max_duration + step_size - 1"
  proof (cases "max_duration = 0")
    case True
    then show ?thesis using s by (simp add: range_up_done)
  next
    case False
    then have "1 < max_duration + 1" using assms by simp
    from rollout_range_upper [OF s this, of lost 0] show ?thesis by simp
  qed
  have u1: "step_size = 1 \<longrightarrow> ?d \<le> max_duration"
  proof
    assume "step_size = 1"
    with up show "?d \<le> max_duration" by simp
  qed
  have first: "?d = t - 1"
    if h: "1 \<le> t \<and> t \<le> max_duration \<and> step_size dvd (t - 1) \<and> lost t \<and>
        (\<forall>u. 1 \<le> u \<and> u < t \<and> step_size dvd (u - 1) \<longrightarrow> \<not> lost u)" for t
  proof -
    have "rollout lost step_size ?ts 0 = 0 + (t - 1)"
    proof (rule rollout_first_lost [OF s])
      show "1 \<le> t" using h by blast
      from h have "t \<le> max_duration" by blast
      then show "t < max_duration + 1" by simp
      show "step_size dvd (t - 1)" using h by blast
      show "lost t" using h by blast
      show "\<forall>u. 1 \<le> u \<and> u < t \<and> step_size dvd (u - 1) \<longrightarrow> \<not> lost u"
        using h by blast
    qed
    then show ?thesis by simp
  qed
  have none: "?d = step_size * ((max_duration + step_size - 1) div step_size)"
    if h: "\<forall>t. 1 \<le> t \<and> t \<le> max_duration \<and> step_size dvd (t - 1) \<longrightarrow> \<not> lost t"
  proof -
    have "rollout lost step_size ?ts 0 =
            0 + step_size * ((max_duration + 1 - 1 + step_size - 1) div step_size)"
    proof (rule rollout_none_lost [OF s])
      show "1 \<le> max_duration + 1" using assms by simp
      show "\<forall>u. 1 \<le> u \<and> u < max_duration + 1 \<and> step_size dvd (u - 1) \<longrightarrow> \<not> lost u"
      proof (intro allI impI)
        fix u assume "1 \<le> u \<and> u < max_duration + 1 \<and> step_size dvd (u - 1)"
        then have "1 \<le> u \<and> u \<le> max_duration \<and> step_size dvd (u - 1)" by simp
        with h show "\<not> lost u" by blast
      qed
    qed
    then show ?thesis by simp
  qed
  have one: "?d = 0" if "lost 1"
  proof (cases "max_duration = 0")
    case True
    then show ?thesis using s by (simp add: range_up_done)
  next
    case False
    then have m: "1 \<le> max_duration" using assms by simp
    have "?d = 1 - 1"
    proof (rule first, intro conjI)
      show "(1::int) \<le> 1" by simp
      show "1 \<le> max_duration" by (rule m)
      show "step_size dvd (1 - 1)" by simp
      show "lost 1" by (rule that)
      show "\<forall>u. 1 \<le> u \<and> u < 1 \<and> step_size dvd (u - 1) \<longrightarrow> \<not> lost u"
      proof (intro allI impI)
        fix u :: int assume "1 \<le> u \<and> u < 1 \<and> step_size dvd (u - 1)"
        then have False by linarith
        then show "\<not> lost u" ..
      qed
    qed
    then show ?thesis by simp
  qed
  have f: "\<forall>t. 1 \<le> t \<and> t \<le> max_duration \<and> step_size dvd (t - 1) \<and> lost t \<and>
                (\<forall>u. 1 \<le> u \<and> u < t \<and> step_size dvd (u - 1) \<longrightarrow> \<not> lost u)
                \<longrightarrow> ?d = t - 1"
    using first by (intro allI impI)
  have n: "(\<forall>t. 1 \<le> t \<and> t \<le> max_duration \<and> step_size dvd (t - 1) \<longrightarrow> \<not> lost t)
              \<longrightarrow> ?d = step_size * ((max_duration + step_size - 1) div step_size)"
    using none by (intro impI)
  have o: "lost 1 \<longrightarrow> ?d = 0" using one by (intro impI)
  show ?thesis
    by (intro exI [of _ ?d] conjI eq lo up u1 f n o)
qed


text \<open>
  Claim C4, as amended, for the rollout of \<open>run_simulation_smart.py\<close>, whose loop ends at
  the first sampled tick at which the predicted distance exceeds 400. For
  \<open>step_size \<ge> 1\<close> and \<open>max_duration \<ge> 0\<close> the estimate is a number \<open>d\<close> with
  \<open>0 \<le> d \<le> max_duration + step_size - 1\<close>, and \<open>d \<le> max_duration\<close> for the step 1 that
  every driver uses. The sampled ticks are 1, 1 + step_size, ... up to \<open>max_duration\<close>;
  when \<open>t\<close> is the first sampled tick at which the predicted position is out of range,
  the estimate is \<open>t - 1\<close>, the ticks before it; when no sampled tick is out of range it
  is \<open>step_size\<close> times the number of sampled ticks; and it is 0 when the position
  predicted for tick 1 is out of range.
\<close>

theorem rollout_estimate:
  assumes "1 \<le> step_size" and "0 \<le> max_duration"
  shows "\<exists>d. estimate_connection_duration_smart veh rsu max_duration step_size = Inr d \<and>
           0 \<le> d \<and> d \<le> max_duration + step_size - 1 \<and>
           (step_size = 1 \<longrightarrow> d \<le> max_duration) \<and>
           (\<forall>t. 1 \<le> t \<and> t \<le> max_duration \<and> step_size dvd (t - 1) \<and>
                out_of_range veh rsu t \<and>
                (\<forall>u. 1 \<le> u \<and> u < t \<and> step_size dvd (u - 1) \<longrightarrow> \<not> out_of_range veh rsu u)
                \<longrightarrow> d = t - 1) \<and>
           ((\<forall>t. 1 \<le> t \<and> t \<le> max_duration \<and> step_size dvd (t - 1)
                \<longrightarrow> \<not> out_of_range veh rsu t)
              \<longrightarrow> d = step_size * ((max_duration + step_size - 1) div step_size)) \<and>
           (out_of_range veh rsu 1 \<longrightarrow> d = 0)"
  unfolding estimate_connection_duration_smart_def
  by (rule estimate_loop_char [OF assms])

theorem rollout_estimate_witness:
  "(1::int) \<le> 3 \<and> (0::int) \<le> 10 \<and>
   estimate_connection_duration_smart
     \<lparr>veh_id = ''v1'', veh_pos = (0, 0), veh_speed = 0, veh_angle = 0,
       veh_length = 5, veh_width = 2\<rparr>
     \<lparr>rsu_id = 1, rsu_x = 10, rsu_y = 0\<rparr> 10 3 = Inr (3 * ((10 + 3 - 1) div 3)) \<and>
   estimate_connection_duration_smart
     \<lparr>veh_id = ''v1'', veh_pos = (0, 0), veh_speed = 100, veh_angle = 0,
       veh_length = 5, veh_width = 2\<rparr>
     \<lparr>rsu_id = 1, rsu_x = 0, rsu_y = 0\<rparr> 10 1 = Inr (5 - 1)"
proof -
  let ?v = "\<lparr>veh_id = ''v1'', veh_pos = (0, 0), veh_speed = 0, veh_angle = 0,
       veh_length = 5, veh_width = 2\<rparr>"
  let ?r = "\<lparr>rsu_id = 1, rsu_x = 10, rsu_y = 0\<rparr>"
  let ?w = "\<lparr>veh_id = ''v1'', veh_pos = (0, 0), veh_speed = 100, veh_angle = 0,
       veh_length = 5, veh_width = 2\<rparr>"
  let ?o = "\<lparr>rsu_id = 1, rsu_x = 0, rsu_y = 0\<rparr>"
  have a: "(1::int) \<le> 3" and b: "(0::int) \<le> 10" and c: "(1::int) \<le> 1" by simp_all
  have near: "\<forall>t. 1 \<le> t \<and> t \<le> 10 \<and> 3 dvd (t - 1) \<longrightarrow> \<not> out_of_range ?v ?r t"
    by (simp add: out_of_range_def predict_future_position_of_def predict_future_position_def
        rsu_distance_x_axis)
  from rollout_estimate [OF a b, of ?v ?r] obtain d
    where "estimate_connection_duration_smart ?v ?r 10 3 = Inr d"
      and "(\<forall>t. 1 \<le> t \<and> t \<le> 10 \<and> 3 dvd (t - 1) \<longrightarrow> \<not> out_of_range ?v ?r t)
             \<longrightarrow> d = 3 * ((10 + 3 - 1) div 3)"
    by blast
  with near have first: "estimate_connection_duration_smart ?v ?r 10 3 =
      Inr (3 * ((10 + 3 - 1) div 3))" by blast
  have far: "out_of_range ?w ?o t \<longleftrightarrow> 400 < \<bar>100 * real_of_int t\<bar>" for t
    by (simp add: out_of_range_def predict_future_position_of_def predict_future_position_def
        radians_def rsu_distance_x_axis)
  have lost5: "out_of_range ?w ?o 5" unfolding far by simp
  have kept: "\<forall>u. 1 \<le> u \<and> u < 5 \<and> 1 dvd (u - 1) \<longrightarrow> \<not> out_of_range ?w ?o u"
  proof (intro allI impI)
    fix u :: int assume "1 \<le> u \<and> u < 5 \<and> 1 dvd (u - 1)"
    then have "0 \<le> real_of_int u" and "real_of_int u \<le> 4" by simp_all
    then have "\<bar>100 * real_of_int u\<bar> \<le> 400" by simp
    then show "\<not> out_of_range ?w ?o u" unfolding far by simp
  qed
  from rollout_estimate [OF c b, of ?w ?o] obtain e
    where e: "estimate_connection_duration_smart ?w ?o 10 1 = Inr e"
      and every: "\<forall>t. 1 \<le> t \<and> t \<le> 10 \<and> 1 dvd (t - 1) \<and> out_of_range ?w ?o t \<and>
                (\<forall>u. 1 \<le> u \<and> u < t \<and> 1 dvd (u - 1) \<longrightarrow> \<not> out_of_range ?w ?o u)
                \<longrightarrow> e = t - 1"
    by blast
  from every have "(1::int) \<le> 5 \<and> (5::int) \<le> 10 \<and> 1 dvd ((5::int) - 1) \<and> out_of_range ?w ?o 5 \<and>
                (\<forall>u. 1 \<le> u \<and> u < 5 \<and> 1 dvd (u - 1) \<longrightarrow> \<not> out_of_range ?w ?o u)
                \<longrightarrow> e = 5 - 1"
    by (rule spec [of _ 5])
  with lost5 kept have "e = 5 - 1" by simp
  with e first a b show ?thesis by simp
qed

text \<open>
  The claim as first stated fails for a step that does not divide \<open>max_duration\<close>: a
  parked vehicle 10 units from the RSU, \<open>max_duration = 10\<close> and \<open>step_size = 3\<close> sample
  the ticks 1, 4, 7, 10 and give the estimate 12.
\<close>

theorem rollout_exceeds_max_duration:
  "estimate_connection_duration_smart
     \<lparr>veh_id = ''v1'', veh_pos = (0, 0), veh_speed = 0, veh_angle = 0,
       veh_length = 5, veh_width = 2\<rparr>
     \<lparr>rsu_id = 1, rsu_x = 10, rsu_y = 0\<rparr> 10 3 = Inr 12 \<and>
   \<not> (12 \<le> (10::int))"
  by (simp add: eval_defs range_up.simps)


section \<open>A decision for every kinematic state\<close>

lemma estimate_smart_first:
  "\<exists>d. estimate_connection_duration_smart veh rsu 10 1 = Inr d \<and> 0 \<le> d \<and>
        (0 < d \<longleftrightarrow> \<not> out_of_range veh rsu 1)"
proof -
  let ?lost = "out_of_range veh rsu"
  have ts: "range_up 1 11 1 = 1 # range_up 2 11 1"
    by (subst range_up.simps) simp
  have e: "estimate_connection_duration_smart veh rsu 10 1 =
             Inr (rollout ?lost 1 (range_up 1 11 1) 0)"
    by (simp add: estimate_connection_duration_smart_def estimate_loop_def py_range_def)
  show ?thesis
  proof (cases "?lost 1")
    case True
    then show ?thesis unfolding e ts by simp
  next
    case False
    have "1 \<le> rollout ?lost 1 (range_up 2 11 1) 1"
      by (rule rollout_lower) simp
    with False show ?thesis unfolding e ts by simp
  qed
qed

lemma smart_signal_pos: "0 < calculate_signal_strength_smart sim p rsu"
  by (simp add: calculate_signal_strength_smart_def strength_pos rsu_distance_nonneg)

lemma smart_loop_chooses:
  "smart_loop sim veh p rsus vars = Inr vars' \<Longrightarrow>
   sv_best_score vars = 0 \<or> sv_best_rsu vars \<noteq> None \<Longrightarrow>
   (sv_best_rsu vars' \<noteq> None) =
     (sv_best_rsu vars \<noteq> None \<or> (\<exists>rsu\<in>set rsus. \<not> out_of_range veh rsu 1)) \<and>
   (rsus \<noteq> [] \<or> sv_signal_strength vars \<noteq> None \<and> sv_connection_duration vars \<noteq> None
      \<longrightarrow> sv_signal_strength vars' \<noteq> None \<and> sv_connection_duration vars' \<noteq> None)"
proof (induction rsus arbitrary: vars)
  case Nil
  then show ?case by auto
next
  case (Cons rsu rsus)
  obtain d where d: "estimate_connection_duration_smart veh rsu 10 1 = Inr d"
    and d0: "0 \<le> d" and dp: "0 < d \<longleftrightarrow> \<not> out_of_range veh rsu 1"
    using estimate_smart_first by blast
  let ?s = "calculate_signal_strength_smart sim p rsu"
  let ?score = "?s * of_int d"
  let ?v1 = "vars\<lparr>sv_signal_strength := Some ?s, sv_connection_duration := Some d\<rparr>"
  have sp: "0 < ?s" by (rule smart_signal_pos)
  have score_pos: "0 < ?score \<longleftrightarrow> \<not> out_of_range veh rsu 1"
    using sp dp d0 by (simp add: zero_less_mult_iff)
  show ?case
  proof (cases "?score > sv_best_score vars")
    case True
    let ?v2 = "?v1\<lparr>sv_best_score := ?score, sv_best_rsu := Some rsu\<rparr>"
    from Cons.prems(1) True have run: "smart_loop sim veh p rsus ?v2 = Inr vars'"
      by (simp add: d Let_def)
    have pre: "sv_best_score ?v2 = 0 \<or> sv_best_rsu ?v2 \<noteq> None" by simp
    from Cons.IH [OF run pre]
    have r: "sv_best_rsu vars' \<noteq> None"
      and f: "sv_signal_strength vars' \<noteq> None \<and> sv_connection_duration vars' \<noteq> None"
      by simp_all
    have "sv_best_rsu vars \<noteq> None \<or> \<not> out_of_range veh rsu 1"
    proof (cases "sv_best_rsu vars")
      case None
      with Cons.prems(2) have "sv_best_score vars = 0" by simp
      with True have "0 < ?score" by simp
      then show ?thesis using score_pos by simp
    next
      case (Some r)
      then show ?thesis by simp
    qed
    with r f show ?thesis by auto
  next
    case False
    from Cons.prems(1) False have run: "smart_loop sim veh p rsus ?v1 = Inr vars'"
      by (simp add: d Let_def)
    have pre: "sv_best_score ?v1 = 0 \<or> sv_best_rsu ?v1 \<noteq> None" using Cons.prems(2) by simp
    from Cons.IH [OF run pre]
    have r: "(sv_best_rsu vars' \<noteq> None) =
        (sv_best_rsu vars \<noteq> None \<or> (\<exists>rsu\<in>set rsus. \<not> out_of_range veh rsu 1))"
      and f: "sv_signal_strength vars' \<noteq> None \<and> sv_connection_duration vars' \<noteq> None"
      by simp_all
    have "sv_best_rsu vars \<noteq> None" if "\<not> out_of_range veh rsu 1"
    proof (rule ccontr)
      assume "\<not> sv_best_rsu vars \<noteq> None"
      with Cons.prems(2) have "sv_best_score vars = 0" by simp
      moreover from that have "0 < ?score" using score_pos by simp
      ultimately show False using False by simp
    qed
    with r f show ?thesis by auto
  qed
qed

lemma smart_decision_row:
  "((\<exists>rsu\<in>set rsus. \<not> out_of_range veh rsu 1) \<longrightarrow>
      (\<exists>row. smart_decision sim step veh rsus = Inr (Some row) \<and>
             row_step row = step \<and> row_vehicle row = veh_id veh)) \<and>
   ((\<forall>rsu\<in>set rsus. out_of_range veh rsu 1) \<longrightarrow>
      smart_decision sim step veh rsus = Inr None)"
proof -
  let ?p = "predict_future_position (veh_pos veh) (veh_speed veh) (veh_angle veh) 2"
  let ?init = "\<lparr>sv_best_rsu = None, sv_best_score = 0,
       sv_signal_strength = None, sv_connection_duration = None\<rparr>"
  obtain vars where run: "smart_loop sim veh ?p rsus ?init = Inr vars"
    using smart_loop_total by blast
  have pre: "sv_best_score ?init = 0 \<or> sv_best_rsu ?init \<noteq> None" by simp
  from smart_loop_chooses [OF run pre]
  have r: "(sv_best_rsu vars \<noteq> None) = (\<exists>rsu\<in>set rsus. \<not> out_of_range veh rsu 1)"
    and f: "rsus \<noteq> [] \<longrightarrow>
              sv_signal_strength vars \<noteq> None \<and> sv_connection_duration vars \<noteq> None"
    by simp_all
  show ?thesis
  proof (intro conjI impI)
    assume ex: "\<exists>rsu\<in>set rsus. \<not> out_of_range veh rsu 1"
    then have "rsus \<noteq> []" by auto
    with f r ex obtain b s d where "sv_best_rsu vars = Some b"
      "sv_signal_strength vars = Some s" "sv_connection_duration vars = Some d"
      by auto
    then show "\<exists>row. smart_decision sim step veh rsus = Inr (Some row) \<and>
             row_step row = step \<and> row_vehicle row = veh_id veh"
      by (simp add: smart_decision_def run)
  next
    assume "\<forall>rsu\<in>set rsus. out_of_range veh rsu 1"
    with r have "sv_best_rsu vars = None" by auto
    then show "smart_decision sim step veh rsus = Inr None"
      by (simp add: smart_decision_def run)
  qed
qed

text \<open>
  Claim C10, as amended. The predictor has no validation: for every real speed and
  heading it returns the position moved by \<open>speed * t\<close> along the heading in radians.
  The move has length \<open>\<bar>speed * t\<bar>\<close>; a negative speed gives the mirror image of the
  prediction for the positive speed; a heading beyond 360 degrees is the heading reduced
  by a full turn. The smart driver writes a row for a vehicle exactly when some RSU of
  the roster is within 400 of the position predicted for tick 1, whatever the speed and
  the heading, and writes none when every RSU is out of range there. NaN and values
  beyond the range of a float are outside the real numbers of this model.
\<close>

theorem predict_future_position_total:
  "predict_future_position pos speed angle t =
     (fst pos + speed * t * cos (angle * pi / 180),
      snd pos + speed * t * sin (angle * pi / 180)) \<and>
   euclid (predict_future_position pos speed angle t) pos = \<bar>speed * t\<bar> \<and>
   predict_future_position pos (- speed) angle t =
     (2 * fst pos - fst (predict_future_position pos speed angle t),
      2 * snd pos - snd (predict_future_position pos speed angle t)) \<and>
   predict_future_position pos speed (angle + 360) t =
     predict_future_position pos speed angle t \<and>
   ((\<exists>rsu\<in>set rsus. \<not> out_of_range veh rsu 1) \<longrightarrow>
      (\<exists>row. smart_decision sim step veh rsus = Inr (Some row) \<and>
             row_step row = step \<and> row_vehicle row = veh_id veh)) \<and>
   ((\<forall>rsu\<in>set rsus. out_of_range veh rsu 1) \<longrightarrow>
      smart_decision sim step veh rsus = Inr None)"
  using predict_formula [of pos speed angle t] predict_displacement [of pos speed angle t]
    predict_negative_speed [of pos speed angle t] predict_heading_wraps [of pos speed angle t]
    smart_decision_row [of rsus veh sim step]
  by (intro conjI) blast+

theorem predict_future_position_total_witness:
  "\<not> out_of_range \<lparr>veh_id = ''v1'', veh_pos = (0, 0), veh_speed = - 1, veh_angle = 0,
       veh_length = 5, veh_width = 2\<rparr>
       \<lparr>rsu_id = 1, rsu_x = 10, rsu_y = 0\<rparr> 1 \<and>
   (\<exists>row. smart_decision
            [\<lparr>veh_id = ''v1'', veh_pos = (0, 0), veh_speed = - 1, veh_angle = 0,
       veh_length = 5, veh_width = 2\<rparr>] 7
            \<lparr>veh_id = ''v1'', veh_pos = (0, 0), veh_speed = - 1, veh_angle = 0,
       veh_length = 5, veh_width = 2\<rparr>
            [\<lparr>rsu_id = 1, rsu_x = 10, rsu_y = 0\<rparr>] = Inr (Some row) \<and>
          row_step row = 7 \<and> row_vehicle row = ''v1'') \<and>
   out_of_range \<lparr>veh_id = ''v1'', veh_pos = (0, 0), veh_speed = - 1, veh_angle = 0,
       veh_length = 5, veh_width = 2\<rparr>
       \<lparr>rsu_id = 2, rsu_x = 1000, rsu_y = 0\<rparr> 1 \<and>
   smart_decision
     [\<lparr>veh_id = ''v1'', veh_pos = (0, 0), veh_speed = - 1, veh_angle = 0,
       veh_length = 5, veh_width = 2\<rparr>] 7
     \<lparr>veh_id = ''v1'', veh_pos = (0, 0), veh_speed = - 1, veh_angle = 0,
       veh_length = 5, veh_width = 2\<rparr>
     [\<lparr>rsu_id = 2, rsu_x = 1000, rsu_y = 0\<rparr>] = Inr None"
proof -
  let ?v = "\<lparr>veh_id = ''v1'', veh_pos = (0, 0), veh_speed = - 1, veh_angle = 0,
       veh_length = 5, veh_width = 2\<rparr>"
  let ?near = "\<lparr>rsu_id = 1, rsu_x = 10, rsu_y = 0\<rparr>"
  let ?far = "\<lparr>rsu_id = 2, rsu_x = 1000, rsu_y = 0\<rparr>"
  have n: "\<not> out_of_range ?v ?near 1"
    by (simp add: out_of_range_def predict_future_position_of_def predict_future_position_def
        radians_def rsu_distance_x_axis)
  have f: "out_of_range ?v ?far 1"
    by (simp add: out_of_range_def predict_future_position_of_def predict_future_position_def
        radians_def rsu_distance_x_axis)
  from n have "\<exists>rsu\<in>set [?near]. \<not> out_of_range ?v rsu 1" by simp
  with predict_future_position_total [of _ _ _ _ "[?near]" ?v "[?v]" 7]
  have row: "\<exists>row. smart_decision [?v] 7 ?v [?near] = Inr (Some row) \<and>
          row_step row = 7 \<and> row_vehicle row = veh_id ?v"
    by blast
  from f have "\<forall>rsu\<in>set [?far]. out_of_range ?v rsu 1" by simp
  with predict_future_position_total [of _ _ _ _ "[?far]" ?v "[?v]" 7]
  have none: "smart_decision [?v] 7 ?v [?far] = Inr None"
    by blast
  from n f row none show ?thesis by simp
qed

text \<open>
  The claim as first stated fails: a vehicle of speed -1 gets a predicted position, two
  units behind it, and the smart driver writes a row for it.
\<close>

theorem negative_speed_is_predicted:
  "predict_future_position (0, 0) (- 1) 0 2 = (- 2, 0) \<and>
   smart_decision
     [\<lparr>veh_id = ''v1'', veh_pos = (0, 0), veh_speed = - 1, veh_angle = 0,
       veh_length = 5, veh_width = 2\<rparr>] 0
     \<lparr>veh_id = ''v1'', veh_pos = (0, 0), veh_speed = - 1, veh_angle = 0,
       veh_length = 5, veh_width = 2\<rparr>
     [\<lparr>rsu_id = 1, rsu_x = 10, rsu_y = 0\<rparr>] =
   Inr (Some \<lparr>row_step = 0, row_vehicle = ''v1'', row_rsu = 1, row_signal = 1 / 61,
               row_duration = 10, row_score = 10 / 61\<rparr>)"
  by (simp add: eval_defs range_up.simps)

section \<open>The live set of the graph construction\<close>

lemma rsu_loop_none_in_range:
  "\<forall>rsu\<in>set rsus. 400 < rsu_distance future_pos rsu \<Longrightarrow>
   rsu_loop future_pos t last_nodes rsus st = st"
proof (induction rsus arbitrary: st)
  case Nil
  then show ?case by simp
next
  case (Cons rsu rsus)
  obtain G cur where st: "st = (G, cur)" by (cases st)
  from Cons show ?case by (simp add: st)
qed

lemma dag_tick_carry_forward:
  "\<forall>rsu\<in>set rsus.
      400 < rsu_distance (predict_future_position_of veh (of_int (int t * timestep))) rsu \<Longrightarrow>
   dag_tick veh rsus timestep t st = st"
  by (cases st) (simp add: dag_tick_def rsu_loop_none_in_range)

lemma dag_tick_live_nonempty:
  "snd st \<noteq> [] \<Longrightarrow> snd (dag_tick veh rsus timestep t st) \<noteq> []"
  by (cases st) (auto simp: dag_tick_def Let_def split: prod.splits)

lemma dag_loop_live_nonempty: "snd (dag_loop veh rsus timestep n) \<noteq> []"
  by (induction n) (simp_all add: dag_tick_live_nonempty)

text \<open>
  Claim C3. At a tick \<open>t \<ge> 1\<close> at which no RSU is within 400 of the predicted position,
  the live set after the tick is the live set after tick \<open>t - 1\<close>; and after any number
  of ticks the live set, from which the edges into the next tick start, is not empty.
\<close>

theorem live_set_carry_forward:
  "(1 \<le> t \<and>
    (\<forall>rsu\<in>set rsus.
        400 < rsu_distance (predict_future_position_of veh (of_int (int t * timestep))) rsu)
    \<longrightarrow> snd (dag_loop veh rsus timestep t) = snd (dag_loop veh rsus timestep (t - 1))) \<and>
   snd (dag_loop veh rsus timestep n) \<noteq> []"
proof (intro conjI impI)
  assume a: "1 \<le> t \<and>
    (\<forall>rsu\<in>set rsus.
        400 < rsu_distance (predict_future_position_of veh (of_int (int t * timestep))) rsu)"
  then obtain m where t: "t = Suc m" by (cases t) auto
  show "snd (dag_loop veh rsus timestep t) = snd (dag_loop veh rsus timestep (t - 1))"
    using a by (simp add: t dag_tick_carry_forward)
next
  show "snd (dag_loop veh rsus timestep n) \<noteq> []" by (rule dag_loop_live_nonempty)
qed

lemmas graph_defs = dag_tick_def add_node_def add_edge_def empty_graph_def
  predict_future_position_of_def predict_future_position_def radians_def rsu_distance_x_axis

theorem live_set_carry_forward_witness:
  "(1::nat) \<le> 1 \<and>
   400 < rsu_distance
           (predict_future_position_of
              \<lparr>veh_id = ''v1'', veh_pos = (0, 0), veh_speed = 0, veh_angle = 0,
                veh_length = 5, veh_width = 2\<rparr> (of_int (int 1 * 1)))
           \<lparr>rsu_id = 1, rsu_x = 1000, rsu_y = 0\<rparr> \<and>
   snd (dag_loop \<lparr>veh_id = ''v1'', veh_pos = (0, 0), veh_speed = 0, veh_angle = 0,
                   veh_length = 5, veh_width = 2\<rparr>
          [\<lparr>rsu_id = 1, rsu_x = 1000, rsu_y = 0\<rparr>] 1 1) =
   snd (dag_loop \<lparr>veh_id = ''v1'', veh_pos = (0, 0), veh_speed = 0, veh_angle = 0,
                   veh_length = 5, veh_width = 2\<rparr>
          [\<lparr>rsu_id = 1, rsu_x = 1000, rsu_y = 0\<rparr>] 1 (1 - 1)) \<and>
   snd (dag_loop \<lparr>veh_id = ''v1'', veh_pos = (0, 0), veh_speed = 0, veh_angle = 0,
                   veh_length = 5, veh_width = 2\<rparr>
          [\<lparr>rsu_id = 1, rsu_x = 1000, rsu_y = 0\<rparr>] 1 1) \<noteq> []"
proof -
  have h: "400 < rsu_distance
           (predict_future_position_of
              \<lparr>veh_id = ''v1'', veh_pos = (0, 0), veh_speed = 0, veh_angle = 0,
                veh_length = 5, veh_width = 2\<rparr> (of_int (int 1 * 1)))
           \<lparr>rsu_id = 1, rsu_x = 1000, rsu_y = 0\<rparr>"
    by (simp add: graph_defs)
  show ?thesis
    using h live_set_carry_forward [of 1 "[\<lparr>rsu_id = 1, rsu_x = 1000, rsu_y = 0\<rparr>]"
      "\<lparr>veh_id = ''v1'', veh_pos = (0, 0), veh_speed = 0, veh_angle = 0,
                veh_length = 5, veh_width = 2\<rparr>" 1 1]
    by simp
qed


section \<open>A horizon without coverage\<close>

lemma dag_loop_no_rsu:
  "(\<forall>t. 1 \<le> t \<and> t \<le> n \<longrightarrow>
      (\<forall>rsu\<in>set rsus.
          400 < rsu_distance (predict_future_position_of veh (of_int (int t * timestep))) rsu))
   \<Longrightarrow> dag_loop veh rsus timestep n = (add_node empty_graph (Start, 0), [(Start, 0)])"
proof (induction n)
  case 0
  then show ?case by simp
next
  case (Suc n)
  have "\<forall>t. 1 \<le> t \<and> t \<le> n \<longrightarrow>
      (\<forall>rsu\<in>set rsus.
          400 < rsu_distance (predict_future_position_of veh (of_int (int t * timestep))) rsu)"
  proof (intro allI impI)
    fix t assume "1 \<le> t \<and> t \<le> n"
    then have "1 \<le> t \<and> t \<le> Suc n" by simp
    with Suc.prems show "\<forall>rsu\<in>set rsus.
          400 < rsu_distance (predict_future_position_of veh (of_int (int t * timestep))) rsu"
      by blast
  qed
  then have "dag_loop veh rsus timestep n = (add_node empty_graph (Start, 0), [(Start, 0)])"
    by (rule Suc.IH)
  moreover have "\<forall>rsu\<in>set rsus.
      400 < rsu_distance (predict_future_position_of veh (of_int (int (Suc n) * timestep))) rsu"
  proof -
    have "1 \<le> Suc n \<and> Suc n \<le> Suc n" by simp
    with Suc.prems show ?thesis by blast
  qed
  ultimately show ?case by (simp add: dag_tick_carry_forward)
qed

lemma build_graph_no_rsu:
  assumes "\<forall>t. 1 \<le> t \<and> t \<le> horizon \<longrightarrow>
      (\<forall>rsu\<in>set rsus.
          400 < rsu_distance (predict_future_position_of veh (of_int (int t * timestep))) rsu)"
  shows "build_graph veh rsus horizon timestep =
           \<lparr>g_nodes = [(Start, 0), (End, horizon + 1)],
            g_weight = (\<lambda>e. None)(((Start, 0), (End, horizon + 1)) \<mapsto> 0)\<rparr>"
  by (simp add: build_graph_def dag_loop_no_rsu [OF assms] add_node_def add_edge_def
      empty_graph_def)

lemma two_node_search:
  "shortest_path slot \<lparr>g_nodes = [(Start, 0), (End, Suc h)],
            g_weight = (\<lambda>e. None)(((Start, 0), (End, Suc h)) \<mapsto> 0)\<rparr> (Start, 0) (End, Suc h)
     = Inr [(Start, 0), (End, Suc h)]"
  by (simp add: shortest_path_def bidirectional_dijkstra_def bidirectional_loop.simps
      neighs_def successors_def predecessors_def weight_def relaxing_def meet_def
      heappush_def entry_less_def Let_def)

lemma two_node_paths:
  assumes "is_path \<lparr>g_nodes = [(Start, 0), (End, Suc h)],
            g_weight = (\<lambda>e. None)(((Start, 0), (End, Suc h)) \<mapsto> 0)\<rparr> q"
    and "hd q = (Start, 0)" and "last q = (End, Suc h)"
  shows "q = [(Start, 0), (End, Suc h)]"
proof (cases q)
  case Nil
  then show ?thesis using assms by simp
next
  case (Cons a q1)
  show ?thesis
  proof (cases q1)
    case Nil
    then show ?thesis using assms Cons by simp
  next
    case (Cons b q2)
    show ?thesis
    proof (cases q2)
      case Nil
      then show ?thesis using assms \<open>q = a # q1\<close> \<open>q1 = b # q2\<close> by (simp split: if_splits)
    next
      case (Cons c q3)
      then show ?thesis using assms \<open>q = a # q1\<close> \<open>q1 = b # q2\<close> by (simp split: if_splits)
    qed
  qed
qed

lemma construct_dag_no_rsu:
  assumes "\<forall>t. 1 \<le> t \<and> t \<le> horizon \<longrightarrow>
      (\<forall>rsu\<in>set rsus.
          400 < rsu_distance (predict_future_position_of veh (of_int (int t * timestep))) rsu)"
  shows "construct_dag slot veh rsus horizon timestep = Inr [(Start, 0), (End, horizon + 1)]"
  using two_node_search [of slot horizon]
  by (simp add: construct_dag_def build_graph_no_rsu [OF assms])


lemma parked_far_away:
  "\<forall>t. 1 \<le> t \<and> t \<le> horizon \<longrightarrow>
      (\<forall>rsu\<in>set [\<lparr>rsu_id = 1, rsu_x = 1000, rsu_y = 0\<rparr>].
          400 < rsu_distance
                  (predict_future_position_of
                     \<lparr>veh_id = ''v1'', veh_pos = (0, 0), veh_speed = 0, veh_angle = 0,
                       veh_length = 5, veh_width = 2\<rparr> (of_int (int t * 1))) rsu)"
  by (simp add: graph_defs)

text \<open>
  Claim C2, as amended. If no RSU is within 400 of the predicted position at any tick
  \<open>1..horizon\<close>, the live set stays \<open>{start}\<close>, the graph holds the two sentinels and
  the single edge from start to end, and the scheduler returns the two-node path from
  \<open>(start, 0)\<close> to \<open>(end, horizon + 1)\<close>. It is the only path from start to end in that
  graph, so every search that returns such a path returns this one.
\<close>

theorem no_coverage_two_sentinels:
  assumes "\<forall>t. 1 \<le> t \<and> t \<le> horizon \<longrightarrow>
      (\<forall>rsu\<in>set rsus.
          400 < rsu_distance (predict_future_position_of veh (of_int (int t * timestep))) rsu)"
  shows "construct_dag slot veh rsus horizon timestep = Inr [(Start, 0), (End, horizon + 1)] \<and>
         g_nodes (build_graph veh rsus horizon timestep) = [(Start, 0), (End, horizon + 1)] \<and>
         (\<forall>q. is_path (build_graph veh rsus horizon timestep) q \<and>
               hd q = (Start, 0) \<and> last q = (End, horizon + 1)
               \<longrightarrow> q = [(Start, 0), (End, horizon + 1)])"
  using construct_dag_no_rsu [OF assms, of slot] two_node_paths [of horizon]
  by (simp add: build_graph_no_rsu [OF assms])

theorem no_coverage_two_sentinels_witness:
  "construct_dag (\<lambda>v. 0) \<lparr>veh_id = ''v1'', veh_pos = (0, 0), veh_speed = 0, veh_angle = 0,
                   veh_length = 5, veh_width = 2\<rparr>
     [\<lparr>rsu_id = 1, rsu_x = 1000, rsu_y = 0\<rparr>] 10 1 = Inr [(Start, 0), (End, 10 + 1)] \<and>
   g_nodes (build_graph \<lparr>veh_id = ''v1'', veh_pos = (0, 0), veh_speed = 0, veh_angle = 0,
                   veh_length = 5, veh_width = 2\<rparr>
     [\<lparr>rsu_id = 1, rsu_x = 1000, rsu_y = 0\<rparr>] 10 1) = [(Start, 0), (End, 10 + 1)]"
  using no_coverage_two_sentinels [OF parked_far_away [of 10]] by blast

text \<open>
  The claim as first stated fails: the carried live set joins start to end, so the path
  has the end node too and the \<open>NetworkXNoPath\<close> branch is not taken.
\<close>

theorem no_coverage_returns_end_node:
  "list_all (\<lambda>t. 400 < rsu_distance
                  (predict_future_position_of
                     \<lparr>veh_id = ''v1'', veh_pos = (0, 0), veh_speed = 0, veh_angle = 0,
                       veh_length = 5, veh_width = 2\<rparr> (of_int (int t * 1)))
                  \<lparr>rsu_id = 1, rsu_x = 1000, rsu_y = 0\<rparr>) [1..<11] \<and>
   construct_dag (\<lambda>v. 0) \<lparr>veh_id = ''v1'', veh_pos = (0, 0), veh_speed = 0, veh_angle = 0,
                   veh_length = 5, veh_width = 2\<rparr>
     [\<lparr>rsu_id = 1, rsu_x = 1000, rsu_y = 0\<rparr>] 10 1 = Inr [(Start, 0), (End, 11)] \<and>
   construct_dag (\<lambda>v. 0) \<lparr>veh_id = ''v1'', veh_pos = (0, 0), veh_speed = 0, veh_angle = 0,
                   veh_length = 5, veh_width = 2\<rparr>
     [\<lparr>rsu_id = 1, rsu_x = 1000, rsu_y = 0\<rparr>] 10 1 \<noteq> Inr [(Start, 0)]"
proof -
  have "list_all (\<lambda>t. 400 < rsu_distance
                  (predict_future_position_of
                     \<lparr>veh_id = ''v1'', veh_pos = (0, 0), veh_speed = 0, veh_angle = 0,
                       veh_length = 5, veh_width = 2\<rparr> (of_int (int t * 1)))
                  \<lparr>rsu_id = 1, rsu_x = 1000, rsu_y = 0\<rparr>) [1..<11]"
    by (simp add: graph_defs list_all_iff)
  then show ?thesis
    using construct_dag_no_rsu [OF parked_far_away [of 10], of "\<lambda>v. 0"] by simp
qed


section \<open>Nodes and weights of the graph under construction\<close>

lemma is_path_nonempty: "is_path G p \<Longrightarrow> p \<noteq> []"
  by (cases p) simp_all

lemma add_node_nodes: "set (g_nodes (add_node G n)) = insert n (set (g_nodes G))"
  by (auto simp: add_node_def)

lemma add_node_weight: "g_weight (add_node G n) = g_weight G"
  by (simp add: add_node_def)

lemma add_node_present: "n \<in> set (g_nodes G) \<Longrightarrow> add_node G n = G"
  by (simp add: add_node_def)

lemma connect_present:
  "set L \<subseteq> set (g_nodes G) \<Longrightarrow> node \<in> set (g_nodes G) \<Longrightarrow>
   g_nodes (connect L node w G) = g_nodes G \<and>
   g_weight (connect L node w G) =
     (\<lambda>e. if fst e \<in> set L \<and> snd e = node then Some w else g_weight G e)"
proof (induction L arbitrary: G)
  case Nil
  then show ?case by simp
next
  case (Cons l L)
  let ?G = "add_edge G l node w"
  have G1: "g_nodes ?G = g_nodes G"
    and W1: "g_weight ?G = (g_weight G)((l, node) \<mapsto> w)"
    using Cons.prems by (simp_all add: add_edge_def add_node_present Let_def)
  have "set L \<subseteq> set (g_nodes ?G)" and "node \<in> set (g_nodes ?G)"
    using Cons.prems G1 by simp_all
  from Cons.IH [OF this] have n: "g_nodes (connect L node w ?G) = g_nodes ?G"
    and wt: "g_weight (connect L node w ?G) =
       (\<lambda>e. if fst e \<in> set L \<and> snd e = node then Some w else g_weight ?G e)"
    by simp_all
  have "g_weight (connect (l # L) node w G) =
     (\<lambda>e. if fst e \<in> set (l # L) \<and> snd e = node then Some w else g_weight G e)"
  proof
    fix e :: "node \<times> node"
    obtain a b where e: "e = (a, b)" by (cases e)
    show "g_weight (connect (l # L) node w G) e =
       (if fst e \<in> set (l # L) \<and> snd e = node then Some w else g_weight G e)"
      by (simp add: wt W1 e)
  qed
  then show ?case using n G1 by simp
qed

section \<open>Two RSUs whose quality curves cross\<close>

lemma rsu_loop_two:
  assumes ra: "rsu_distance fp a \<le> 400" and rb: "rsu_distance fp b \<le> 400"
    and L: "set L \<subseteq> set (g_nodes G)"
  shows "snd (rsu_loop fp t L [a, b] (G, [])) =
           List.insert (Rsu (rsu_id b), t) [(Rsu (rsu_id a), t)]"
    and "g_weight (fst (rsu_loop fp t L [a, b] (G, []))) =
           (\<lambda>e. if fst e \<in> set L \<and> snd e = (Rsu (rsu_id b), t)
                then Some (- (1 / (1 + rsu_distance fp b)))
                else if fst e \<in> set L \<and> snd e = (Rsu (rsu_id a), t)
                then Some (- (1 / (1 + rsu_distance fp a)))
                else g_weight G e)"
    and "set (g_nodes (fst (rsu_loop fp t L [a, b] (G, [])))) =
           insert (Rsu (rsu_id b), t) (insert (Rsu (rsu_id a), t) (set (g_nodes G)))"
proof -
  let ?na = "(Rsu (rsu_id a), t)" and ?nb = "(Rsu (rsu_id b), t)"
  let ?wa = "- (1 / (1 + rsu_distance fp a))" and ?wb = "- (1 / (1 + rsu_distance fp b))"
  let ?G1 = "add_node G ?na"
  let ?G2 = "connect L ?na ?wa ?G1"
  let ?G3 = "add_node ?G2 ?nb"
  let ?G4 = "connect L ?nb ?wb ?G3"
  have r: "rsu_loop fp t L [a, b] (G, []) = (?G4, List.insert ?nb [?na])"
    using ra rb by (simp add: Let_def)
  have L1: "set L \<subseteq> set (g_nodes ?G1)" using L by (auto simp: add_node_nodes)
  have n1: "?na \<in> set (g_nodes ?G1)" by (simp add: add_node_nodes)
  from connect_present [OF L1 n1, of ?wa]
  have nodes2: "g_nodes ?G2 = g_nodes ?G1"
    and w2: "g_weight ?G2 =
       (\<lambda>e. if fst e \<in> set L \<and> snd e = ?na then Some ?wa else g_weight ?G1 e)"
    by simp_all
  have L3: "set L \<subseteq> set (g_nodes ?G3)" using L1 nodes2 by (auto simp: add_node_nodes)
  have n3: "?nb \<in> set (g_nodes ?G3)" by (simp add: add_node_nodes)
  from connect_present [OF L3 n3, of ?wb]
  have nodes4: "g_nodes ?G4 = g_nodes ?G3"
    and w4: "g_weight ?G4 =
       (\<lambda>e. if fst e \<in> set L \<and> snd e = ?nb then Some ?wb else g_weight ?G3 e)"
    by simp_all
  show "snd (rsu_loop fp t L [a, b] (G, [])) = List.insert ?nb [?na]"
    unfolding r by simp
  show "g_weight (fst (rsu_loop fp t L [a, b] (G, []))) =
           (\<lambda>e. if fst e \<in> set L \<and> snd e = ?nb then Some ?wb
                else if fst e \<in> set L \<and> snd e = ?na then Some ?wa
                else g_weight G e)"
    unfolding r fst_conv w4 add_node_weight w2 ..
  show "set (g_nodes (fst (rsu_loop fp t L [a, b] (G, [])))) =
           insert ?nb (insert ?na (set (g_nodes G)))"
    unfolding r fst_conv nodes4 add_node_nodes nodes2 ..
qed


lemma rsu_loop_two_nodes:
  assumes ra: "rsu_distance fp a \<le> 400" and rb: "rsu_distance fp b \<le> 400"
    and L: "set L \<subseteq> set (g_nodes G)"
    and na: "(Rsu (rsu_id a), t) \<notin> set (g_nodes G)"
    and nb: "(Rsu (rsu_id b), t) \<notin> set (g_nodes G)"
    and ids: "rsu_id a \<noteq> rsu_id b"
  shows "g_nodes (fst (rsu_loop fp t L [a, b] (G, []))) =
           g_nodes G @ [(Rsu (rsu_id a), t), (Rsu (rsu_id b), t)]"
proof -
  let ?na = "(Rsu (rsu_id a), t)" and ?nb = "(Rsu (rsu_id b), t)"
  let ?wa = "- (1 / (1 + rsu_distance fp a))" and ?wb = "- (1 / (1 + rsu_distance fp b))"
  let ?G1 = "add_node G ?na"
  let ?G2 = "connect L ?na ?wa ?G1"
  let ?G3 = "add_node ?G2 ?nb"
  let ?G4 = "connect L ?nb ?wb ?G3"
  have r: "rsu_loop fp t L [a, b] (G, []) = (?G4, List.insert ?nb [?na])"
    using ra rb by (simp add: Let_def)
  have g1: "g_nodes ?G1 = g_nodes G @ [?na]" using na by (simp add: add_node_def)
  have L1: "set L \<subseteq> set (g_nodes ?G1)" using L by (auto simp: add_node_nodes)
  have n1: "?na \<in> set (g_nodes ?G1)" by (simp add: add_node_nodes)
  from connect_present [OF L1 n1, of ?wa] have g2: "g_nodes ?G2 = g_nodes ?G1" by simp
  have "?nb \<notin> set (g_nodes ?G2)" unfolding g2 g1 using nb ids by simp
  then have g3: "g_nodes ?G3 = g_nodes ?G2 @ [?nb]" by (simp add: add_node_def)
  have L3: "set L \<subseteq> set (g_nodes ?G3)" using L1 g2 by (auto simp: add_node_nodes)
  have n3: "?nb \<in> set (g_nodes ?G3)" by (simp add: add_node_nodes)
  from connect_present [OF L3 n3, of ?wb] have g4: "g_nodes ?G4 = g_nodes ?G3" by simp
  show ?thesis unfolding r fst_conv g4 g3 g2 g1 by simp
qed

lemma layer_ticks: "v \<in> set (layer a b t) \<Longrightarrow> snd v = t"
  by (auto simp: layer_def rsu_node_def split: if_splits)

lemma layer_Suc: "layer a b (Suc n) = [rsu_node b (Suc n), rsu_node a (Suc n)]"
  by (simp add: layer_def)

lemma two_rsu_weight_Suc:
  assumes ids: "rsu_id a \<noteq> rsu_id b"
  shows "(\<lambda>e. if fst e \<in> set (layer a b n) \<and> snd e = (Rsu (rsu_id b), Suc n)
                then Some (- potential_datarate veh timestep b (Suc n))
                else if fst e \<in> set (layer a b n) \<and> snd e = (Rsu (rsu_id a), Suc n)
                then Some (- potential_datarate veh timestep a (Suc n))
                else two_rsu_weight veh timestep a b n e) =
         two_rsu_weight veh timestep a b (Suc n)"
proof
  fix e :: "node \<times> node"
  obtain u x tv where e: "e = (u, (x, tv))" by (cases e) auto
  show "(if fst e \<in> set (layer a b n) \<and> snd e = (Rsu (rsu_id b), Suc n)
                then Some (- potential_datarate veh timestep b (Suc n))
                else if fst e \<in> set (layer a b n) \<and> snd e = (Rsu (rsu_id a), Suc n)
                then Some (- potential_datarate veh timestep a (Suc n))
                else two_rsu_weight veh timestep a b n e) =
         two_rsu_weight veh timestep a b (Suc n) e"
  proof (cases "tv = Suc n")
    case True
    have old: "two_rsu_weight veh timestep a b n e = None"
      using True by (simp add: two_rsu_weight_def e)
    show ?thesis
      using True ids by (auto simp: old two_rsu_weight_def e layer_Suc rsu_node_def)
  next
    case False
    then have "two_rsu_weight veh timestep a b (Suc n) e = two_rsu_weight veh timestep a b n e"
      by (auto simp: two_rsu_weight_def e)
    then show ?thesis using False by (simp add: e)
  qed
qed

lemma dag_loop_two:
  assumes ids: "rsu_id a \<noteq> rsu_id b"
  shows "(\<forall>t. 1 \<le> t \<and> t \<le> n \<longrightarrow> in_range veh timestep a t \<and> in_range veh timestep b t) \<Longrightarrow>
         snd (dag_loop veh [a, b] timestep n) = layer a b n \<and>
         g_weight (fst (dag_loop veh [a, b] timestep n)) = two_rsu_weight veh timestep a b n \<and>
         set (g_nodes (fst (dag_loop veh [a, b] timestep n))) =
           {v. snd v \<le> n \<and> v \<in> set (layer a b (snd v))} \<and>
         g_nodes (fst (dag_loop veh [a, b] timestep n)) =
           (Start, 0) # concat (map (\<lambda>t. [rsu_node a t, rsu_node b t]) [1..<Suc n])"
proof (induction n)
  case 0
  have "g_weight (add_node empty_graph (Start, 0)) = two_rsu_weight veh timestep a b 0"
    by (rule ext) (simp add: add_node_def empty_graph_def two_rsu_weight_def)
  moreover have "set (g_nodes (add_node empty_graph (Start, 0))) =
           {v. snd v \<le> 0 \<and> v \<in> set (layer a b (snd v))}"
    by (auto simp: add_node_def empty_graph_def layer_def)
  moreover have "g_nodes (add_node empty_graph (Start, 0)) = [(Start, 0)]"
    by (simp add: add_node_def empty_graph_def)
  ultimately show ?case by (simp add: layer_def)
next
  case (Suc n)
  obtain G L where st: "dag_loop veh [a, b] timestep n = (G, L)"
    by (cases "dag_loop veh [a, b] timestep n")
  have "\<forall>t. 1 \<le> t \<and> t \<le> n \<longrightarrow> in_range veh timestep a t \<and> in_range veh timestep b t"
    using Suc.prems by simp
  from Suc.IH [OF this, unfolded st fst_conv snd_conv] have L: "L = layer a b n"
    and W: "g_weight G = two_rsu_weight veh timestep a b n"
    and N: "set (g_nodes G) = {v. snd v \<le> n \<and> v \<in> set (layer a b (snd v))}"
    and GL: "g_nodes G =
               (Start, 0) # concat (map (\<lambda>t. [rsu_node a t, rsu_node b t]) [1..<Suc n])"
    by blast+
  define fp where "fp = predict_future_position_of veh (of_int (int (Suc n) * timestep))"
  let ?r = "rsu_loop fp (Suc n) L [a, b] (G, [])"
  have "1 \<le> Suc n \<and> Suc n \<le> Suc n" by simp
  with Suc.prems have "in_range veh timestep a (Suc n) \<and> in_range veh timestep b (Suc n)"
    by blast
  then have ra: "rsu_distance fp a \<le> 400" and rb: "rsu_distance fp b \<le> 400"
    unfolding in_range_def fp_def by simp_all
  have qa: "1 / (1 + rsu_distance fp a) = potential_datarate veh timestep a (Suc n)"
    and qb: "1 / (1 + rsu_distance fp b) = potential_datarate veh timestep b (Suc n)"
    unfolding potential_datarate_def fp_def by simp_all
  have sub: "set L \<subseteq> set (g_nodes G)"
    unfolding L N using layer_ticks [of _ a b n] by auto
  note two = rsu_loop_two [OF ra rb sub, of "Suc n"]
  have "List.insert (Rsu (rsu_id b), Suc n) [(Rsu (rsu_id a), Suc n)] = layer a b (Suc n)"
    using ids by (simp add: layer_Suc rsu_node_def)
  then have cur: "snd ?r = layer a b (Suc n)" unfolding two(1) .
  have "dag_tick veh [a, b] timestep (Suc n) (G, L) =
          (fst ?r, if snd ?r = [] then L else snd ?r)"
    unfolding dag_tick_def Let_def fp_def by (simp only: prod.case split: prod.split) simp
  then have t: "dag_tick veh [a, b] timestep (Suc n) (G, L) = (fst ?r, layer a b (Suc n))"
    unfolding cur by (simp add: layer_Suc)
  have w: "g_weight (fst ?r) = two_rsu_weight veh timestep a b (Suc n)"
    by (subst two(2)) (simp only: W L qa qb two_rsu_weight_Suc [OF ids])
  have n: "set (g_nodes (fst ?r)) = {v. snd v \<le> Suc n \<and> v \<in> set (layer a b (snd v))}"
  proof -
    have "{v. snd v \<le> Suc n \<and> v \<in> set (layer a b (snd v))} =
            set (layer a b (Suc n)) \<union> {v. snd v \<le> n \<and> v \<in> set (layer a b (snd v))}"
    proof (intro set_eqI iffI)
      fix v assume "v \<in> {v. snd v \<le> Suc n \<and> v \<in> set (layer a b (snd v))}"
      then have "snd v \<le> Suc n" and m: "v \<in> set (layer a b (snd v))" by simp_all
      then have "snd v = Suc n \<or> snd v \<le> n" by auto
      then show "v \<in> set (layer a b (Suc n)) \<union>
                  {v. snd v \<le> n \<and> v \<in> set (layer a b (snd v))}"
        using m by auto
    next
      fix v assume "v \<in> set (layer a b (Suc n)) \<union>
                  {v. snd v \<le> n \<and> v \<in> set (layer a b (snd v))}"
      then show "v \<in> {v. snd v \<le> Suc n \<and> v \<in> set (layer a b (snd v))}"
      proof
        assume m: "v \<in> set (layer a b (Suc n))"
        then have "snd v = Suc n" by (rule layer_ticks)
        with m show ?thesis by simp
      next
        assume "v \<in> {v. snd v \<le> n \<and> v \<in> set (layer a b (snd v))}"
        then show ?thesis by simp
      qed
    qed
    then show ?thesis unfolding two(3) N by (simp add: layer_Suc rsu_node_def)
  qed
  have na: "(Rsu (rsu_id a), Suc n) \<notin> set (g_nodes G)"
    and nb: "(Rsu (rsu_id b), Suc n) \<notin> set (g_nodes G)"
    unfolding N by simp_all
  have gl: "g_nodes (fst ?r) =
      (Start, 0) # concat (map (\<lambda>t. [rsu_node a t, rsu_node b t]) [1..<Suc (Suc n)])"
    unfolding rsu_loop_two_nodes [OF ra rb sub na nb ids] GL by (simp add: rsu_node_def)
  show ?case using w n gl by (simp add: st t)
qed


lemma build_graph_two:
  assumes ids: "rsu_id a \<noteq> rsu_id b"
    and rng: "\<forall>t. 1 \<le> t \<and> t \<le> horizon \<longrightarrow>
                in_range veh timestep a t \<and> in_range veh timestep b t"
  shows "g_weight (build_graph veh [a, b] horizon timestep) =
           two_rsu_final veh timestep a b horizon"
    and "set (g_nodes (build_graph veh [a, b] horizon timestep)) =
           insert (End, Suc horizon) {v. snd v \<le> horizon \<and> v \<in> set (layer a b (snd v))}"
    and "g_nodes (build_graph veh [a, b] horizon timestep) =
           (Start, 0) # concat (map (\<lambda>t. [rsu_node a t, rsu_node b t]) [1..<Suc horizon]) @
           [(End, Suc horizon)]"
proof -
  obtain G L where st: "dag_loop veh [a, b] timestep horizon = (G, L)"
    by (cases "dag_loop veh [a, b] timestep horizon")
  from dag_loop_two [OF ids rng, unfolded st fst_conv snd_conv] have L: "L = layer a b horizon"
    and W: "g_weight G = two_rsu_weight veh timestep a b horizon"
    and N: "set (g_nodes G) = {v. snd v \<le> horizon \<and> v \<in> set (layer a b (snd v))}"
    and GL: "g_nodes G =
      (Start, 0) # concat (map (\<lambda>t. [rsu_node a t, rsu_node b t]) [1..<Suc horizon])"
    by blast+
  let ?e = "(End, Suc horizon)"
  have bg: "build_graph veh [a, b] horizon timestep = connect L ?e 0 (add_node G ?e)"
    by (simp add: build_graph_def st)
  have "set L \<subseteq> set (g_nodes G)"
    unfolding L N using layer_ticks [of _ a b horizon] by auto
  then have sub: "set L \<subseteq> set (g_nodes (add_node G ?e))" by (auto simp: add_node_nodes)
  have en: "?e \<in> set (g_nodes (add_node G ?e))" by (simp add: add_node_nodes)
  from connect_present [OF sub en, of 0]
  have n: "g_nodes (connect L ?e 0 (add_node G ?e)) = g_nodes (add_node G ?e)"
    and w: "g_weight (connect L ?e 0 (add_node G ?e)) =
       (\<lambda>e. if fst e \<in> set L \<and> snd e = ?e then Some 0 else g_weight (add_node G ?e) e)"
    by simp_all
  have "g_weight (build_graph veh [a, b] horizon timestep) =
          (\<lambda>e. if fst e \<in> set L \<and> snd e = ?e then Some 0 else g_weight G e)"
    unfolding bg w add_node_weight ..
  then show "g_weight (build_graph veh [a, b] horizon timestep) =
           two_rsu_final veh timestep a b horizon"
    unfolding W L by (simp add: two_rsu_final_def fun_eq_iff)
  show "set (g_nodes (build_graph veh [a, b] horizon timestep)) =
           insert (End, Suc horizon) {v. snd v \<le> horizon \<and> v \<in> set (layer a b (snd v))}"
    unfolding bg n add_node_nodes N ..
  have "?e \<notin> set (g_nodes G)" unfolding N by simp
  then have "g_nodes (add_node G ?e) = g_nodes G @ [?e]" by (simp add: add_node_def)
  then show "g_nodes (build_graph veh [a, b] horizon timestep) =
           (Start, 0) # concat (map (\<lambda>t. [rsu_node a t, rsu_node b t]) [1..<Suc horizon]) @
           [(End, Suc horizon)]"
    unfolding bg n GL by simp
qed

lemma end_not_in_layer: "(End, t) \<notin> set (layer a b k)"
  by (simp add: layer_def rsu_node_def)

lemma final_edge:
  assumes "two_rsu_final veh timestep a b horizon (u, v) \<noteq> None"
  shows "snd u \<le> horizon \<and> u \<in> set (layer a b (snd u)) \<and>
         (if snd u = horizon then v = (End, Suc horizon)
          else v \<in> set (layer a b (Suc (snd u))))"
proof (cases "u \<in> set (layer a b horizon) \<and> v = (End, Suc horizon)")
  case True
  then have "snd u = horizon" using layer_ticks by blast
  then show ?thesis using True by simp
next
  case False
  with assms have "two_rsu_weight veh timestep a b horizon (u, v) \<noteq> None"
    by (simp add: two_rsu_final_def)
  then have c: "1 \<le> snd v" "snd v \<le> horizon" "v \<in> set (layer a b (snd v))"
    "u \<in> set (layer a b (snd v - 1))"
    by (simp_all add: two_rsu_weight_def split: if_splits)
  from c(4) have su: "snd u = snd v - 1" by (rule layer_ticks)
  with c(1) have sv: "snd v = Suc (snd u)" by simp
  have "snd u \<noteq> horizon" using sv c(2) by simp
  moreover have "snd u \<le> horizon" using sv c(2) by simp
  moreover have "u \<in> set (layer a b (snd u))" using c(4) su by simp
  moreover have "v \<in> set (layer a b (Suc (snd u)))" using c(3) sv by simp
  ultimately show ?thesis by simp
qed

lemma final_weight_layer:
  assumes "u \<in> set (layer a b k)" and "k < horizon" and "rsu_id a \<noteq> rsu_id b"
  shows "two_rsu_final veh timestep a b horizon (u, rsu_node a (Suc k)) =
           Some (- potential_datarate veh timestep a (Suc k))"
    and "two_rsu_final veh timestep a b horizon (u, rsu_node b (Suc k)) =
           Some (- potential_datarate veh timestep b (Suc k))"
  using assms
  by (simp_all add: two_rsu_final_def two_rsu_weight_def layer_Suc rsu_node_def)

lemma final_weight_end:
  "u \<in> set (layer a b horizon) \<Longrightarrow>
   two_rsu_final veh timestep a b horizon (u, (End, Suc horizon)) = Some 0"
  by (simp add: two_rsu_final_def)

lemma best_quality_step:
  "k < horizon \<Longrightarrow>
   best_quality veh timestep a b c horizon k =
     potential_datarate veh timestep (if Suc k < c then a else b) (Suc k) +
     best_quality veh timestep a b c horizon (Suc k)"
  unfolding best_quality_def by (simp add: sum.atLeast_Suc_atMost)

lemma best_quality_end: "best_quality veh timestep a b c horizon horizon = 0"
  unfolding best_quality_def by simp

lemma best_tail_step:
  "k < horizon \<Longrightarrow>
   best_tail a b c horizon k = best_node a b c (Suc k) # best_tail a b c horizon (Suc k)"
proof -
  assume "k < horizon"
  then have "[Suc k..<Suc horizon] = Suc k # [Suc (Suc k)..<Suc horizon]"
    by (intro upt_conv_Cons) simp
  then show ?thesis unfolding best_tail_def by simp
qed

lemma best_tail_end: "best_tail a b c horizon horizon = [(End, Suc horizon)]"
  unfolding best_tail_def by simp


lemma best_node_in_layer: "best_node a b c (Suc k) \<in> set (layer a b (Suc k))"
  by (simp add: best_node_def layer_Suc)

lemma best_path:
  assumes ids: "rsu_id a \<noteq> rsu_id b"
    and gw: "g_weight G = two_rsu_final veh timestep a b horizon"
    and gn: "set (g_nodes G) =
               insert (End, Suc horizon) {v. snd v \<le> horizon \<and> v \<in> set (layer a b (snd v))}"
  shows "k \<le> horizon \<Longrightarrow> u \<in> set (layer a b k) \<Longrightarrow>
         is_path G (u # best_tail a b c horizon k) \<and>
         path_weight G (u # best_tail a b c horizon k) =
           - best_quality veh timestep a b c horizon k"
proof (induction "horizon - k" arbitrary: k u)
  case 0
  then have k: "k = horizon" by simp
  have un: "u \<in> set (g_nodes G)"
    using "0.prems"(2) layer_ticks [of u a b k] k unfolding gn by simp
  have en: "(End, Suc horizon) \<in> set (g_nodes G)" unfolding gn by simp
  have w: "g_weight G (u, (End, Suc horizon)) = Some 0"
    unfolding gw using "0.prems"(2) k by (simp add: final_weight_end)
  show ?case
    using un en w by (simp add: k best_tail_end best_quality_end)
next
  case (Suc n)
  then have lt: "k < horizon" by simp
  let ?v = "best_node a b c (Suc k)"
  have vin: "?v \<in> set (layer a b (Suc k))" by (rule best_node_in_layer)
  have "n = horizon - Suc k" using Suc.hyps(2) by simp
  moreover have "Suc k \<le> horizon" using lt by simp
  ultimately have ih: "is_path G (?v # best_tail a b c horizon (Suc k)) \<and>
         path_weight G (?v # best_tail a b c horizon (Suc k)) =
           - best_quality veh timestep a b c horizon (Suc k)"
    using vin by (rule Suc.hyps(1))
  have un: "u \<in> set (g_nodes G)"
    using Suc.prems layer_ticks [of u a b k] unfolding gn by simp
  have w: "g_weight G (u, ?v) =
             Some (- potential_datarate veh timestep (if Suc k < c then a else b) (Suc k))"
    unfolding gw best_node_def
    using final_weight_layer [OF Suc.prems(2) lt ids, of veh timestep] by simp
  show ?case
    using un w ih by (simp add: best_tail_step [OF lt] best_quality_step [OF lt])
qed

lemma layered_lower_bound:
  assumes ids: "rsu_id a \<noteq> rsu_id b"
    and gw: "g_weight G = two_rsu_final veh timestep a b horizon"
    and strict: "\<forall>t. 1 \<le> t \<and> t \<le> horizon \<longrightarrow>
        (t < c \<longrightarrow> potential_datarate veh timestep b t < potential_datarate veh timestep a t) \<and>
        (c \<le> t \<longrightarrow> potential_datarate veh timestep a t < potential_datarate veh timestep b t)"
  shows "is_path G q \<Longrightarrow> hd q \<in> set (layer a b k) \<Longrightarrow> k \<le> horizon \<Longrightarrow>
         last q = (End, Suc horizon) \<Longrightarrow>
         - best_quality veh timestep a b c horizon k \<le> path_weight G q \<and>
         (path_weight G q = - best_quality veh timestep a b c horizon k \<longrightarrow>
            tl q = best_tail a b c horizon k)"
proof (induction q arbitrary: k)
  case Nil
  then show ?case by simp
next
  case (Cons u q')
  have uk: "u \<in> set (layer a b k)" using Cons.prems(2) by simp
  then have su: "snd u = k" by (rule layer_ticks)
  show ?case
  proof (cases q')
    case Nil
    then have "u = (End, Suc horizon)" using Cons.prems(4) by simp
    with uk end_not_in_layer show ?thesis by blast
  next
    case (Cons v r)
    from Cons.prems(1) Cons have e: "g_weight G (u, v) \<noteq> None" and pv: "is_path G (v # r)"
      by simp_all
    from e have e': "two_rsu_final veh timestep a b horizon (u, v) \<noteq> None"
      unfolding gw .
    note fe = final_edge [OF e']
    have lastv: "last (v # r) = (End, Suc horizon)" using Cons.prems(4) Cons by simp
    show ?thesis
    proof (cases "k = horizon")
      case True
      then have v: "v = (End, Suc horizon)" using fe su by simp
      have r: "r = []"
      proof (cases r)
        case Nil
        then show ?thesis .
      next
        case (Cons x r')
        with pv have "g_weight G (v, x) \<noteq> None" by simp
        then have "two_rsu_final veh timestep a b horizon (v, x) \<noteq> None" unfolding gw .
        from final_edge [OF this] have "v \<in> set (layer a b (snd v))" by simp
        with v end_not_in_layer show ?thesis by blast
      qed
      have w: "g_weight G (u, v) = Some 0"
        unfolding gw v using uk True by (simp add: final_weight_end)
      show ?thesis
        using w by (simp add: \<open>q' = v # r\<close> r v True best_quality_end best_tail_end)
    next
      case False
      then have lt: "k < horizon" using Cons.prems(3) by simp
      have vin: "v \<in> set (layer a b (Suc k))" using fe su False by simp
      have hv: "hd (v # r) \<in> set (layer a b (Suc k))" using vin by simp
      have sk: "Suc k \<le> horizon" using lt by simp
      from Cons.IH [unfolded \<open>q' = v # r\<close>, OF pv hv sk lastv]
      have lb: "- best_quality veh timestep a b c horizon (Suc k) \<le> path_weight G (v # r)"
        and eq: "path_weight G (v # r) = - best_quality veh timestep a b c horizon (Suc k)
                 \<longrightarrow> r = best_tail a b c horizon (Suc k)"
        by simp_all
      let ?qa = "potential_datarate veh timestep a (Suc k)"
      let ?qb = "potential_datarate veh timestep b (Suc k)"
      let ?qbest = "potential_datarate veh timestep (if Suc k < c then a else b) (Suc k)"
      have "1 \<le> Suc k \<and> Suc k \<le> horizon" using sk by simp
      with strict have cmp: "(Suc k < c \<longrightarrow> ?qb < ?qa) \<and> (c \<le> Suc k \<longrightarrow> ?qa < ?qb)"
        by blast
      from vin have vcases: "v = rsu_node b (Suc k) \<or> v = rsu_node a (Suc k)"
        by (simp add: layer_Suc)
      have wa: "g_weight G (u, rsu_node a (Suc k)) = Some (- ?qa)"
        and wb: "g_weight G (u, rsu_node b (Suc k)) = Some (- ?qb)"
        unfolding gw using final_weight_layer [OF uk lt ids, of veh timestep] by simp_all
      obtain w where w: "g_weight G (u, v) = Some w" using e by auto
      have wge: "- ?qbest \<le> w" and weq: "w = - ?qbest \<longrightarrow> v = best_node a b c (Suc k)"
        using vcases w wa wb cmp by (auto simp: best_node_def)
      have pw: "path_weight G (u # v # r) = w + path_weight G (v # r)" using w by simp
      have bq: "best_quality veh timestep a b c horizon k =
                  ?qbest + best_quality veh timestep a b c horizon (Suc k)"
        by (rule best_quality_step [OF lt])
      have bound: "- best_quality veh timestep a b c horizon k \<le> path_weight G (u # v # r)"
        unfolding pw bq using wge lb by simp
      have "tl (u # v # r) = best_tail a b c horizon k"
        if h: "path_weight G (u # v # r) = - best_quality veh timestep a b c horizon k"
      proof -
        from h have "w + path_weight G (v # r) =
            - ?qbest + - best_quality veh timestep a b c horizon (Suc k)"
          unfolding pw bq by simp
        with wge lb have "w = - ?qbest"
          and "path_weight G (v # r) = - best_quality veh timestep a b c horizon (Suc k)"
          by simp_all
        with weq eq have "v = best_node a b c (Suc k)" and "r = best_tail a b c horizon (Suc k)"
          by simp_all
        then show ?thesis by (simp add: best_tail_step [OF lt])
      qed
      with bound show ?thesis unfolding \<open>q' = v # r\<close> by blast
    qed
  qed
qed


lemma best_tail_last: "k \<le> horizon \<Longrightarrow> last (best_tail a b c horizon k) = (End, Suc horizon)"
  by (simp add: best_tail_def)

lemma ticks_upto_10: "(\<forall>t. 1 \<le> t \<and> t \<le> 10 \<longrightarrow> P t) = list_all P [1..<11]"
proof -
  have "set [1..<11] = {t. 1 \<le> t \<and> t \<le> (10::nat)}" by auto
  then show ?thesis unfolding list_all_iff by auto
qed

lemma crossing_instance:
  "\<forall>t. 1 \<le> t \<and> t \<le> 10 \<longrightarrow>
     in_range \<lparr>veh_id = ''v1'', veh_pos = (0, 0), veh_speed = 10, veh_angle = 0,
               veh_length = 5, veh_width = 2\<rparr> 1 \<lparr>rsu_id = 1, rsu_x = 0, rsu_y = 0\<rparr> t \<and>
     in_range \<lparr>veh_id = ''v1'', veh_pos = (0, 0), veh_speed = 10, veh_angle = 0,
               veh_length = 5, veh_width = 2\<rparr> 1 \<lparr>rsu_id = 2, rsu_x = 90, rsu_y = 0\<rparr> t \<and>
     (t < 5 \<longrightarrow>
        potential_datarate \<lparr>veh_id = ''v1'', veh_pos = (0, 0), veh_speed = 10, veh_angle = 0,
               veh_length = 5, veh_width = 2\<rparr> 1 \<lparr>rsu_id = 2, rsu_x = 90, rsu_y = 0\<rparr> t
        < potential_datarate \<lparr>veh_id = ''v1'', veh_pos = (0, 0), veh_speed = 10, veh_angle = 0,
               veh_length = 5, veh_width = 2\<rparr> 1 \<lparr>rsu_id = 1, rsu_x = 0, rsu_y = 0\<rparr> t) \<and>
     (5 \<le> t \<longrightarrow>
        potential_datarate \<lparr>veh_id = ''v1'', veh_pos = (0, 0), veh_speed = 10, veh_angle = 0,
               veh_length = 5, veh_width = 2\<rparr> 1 \<lparr>rsu_id = 1, rsu_x = 0, rsu_y = 0\<rparr> t
        < potential_datarate \<lparr>veh_id = ''v1'', veh_pos = (0, 0), veh_speed = 10, veh_angle = 0,
               veh_length = 5, veh_width = 2\<rparr> 1 \<lparr>rsu_id = 2, rsu_x = 90, rsu_y = 0\<rparr> t)"
  unfolding ticks_upto_10
  by (simp add: upt_rec in_range_def potential_datarate_def graph_defs)

lemma crossing_graph:
  "g_weight (build_graph \<lparr>veh_id = ''v1'', veh_pos = (0, 0), veh_speed = 10, veh_angle = 0,
                   veh_length = 5, veh_width = 2\<rparr>
        [\<lparr>rsu_id = 1, rsu_x = 0, rsu_y = 0\<rparr>, \<lparr>rsu_id = 2, rsu_x = 90, rsu_y = 0\<rparr>] 10 1) =
     two_rsu_final \<lparr>veh_id = ''v1'', veh_pos = (0, 0), veh_speed = 10, veh_angle = 0,
                   veh_length = 5, veh_width = 2\<rparr> 1
       \<lparr>rsu_id = 1, rsu_x = 0, rsu_y = 0\<rparr> \<lparr>rsu_id = 2, rsu_x = 90, rsu_y = 0\<rparr> 10"
  "g_nodes (build_graph \<lparr>veh_id = ''v1'', veh_pos = (0, 0), veh_speed = 10, veh_angle = 0,
                   veh_length = 5, veh_width = 2\<rparr>
        [\<lparr>rsu_id = 1, rsu_x = 0, rsu_y = 0\<rparr>, \<lparr>rsu_id = 2, rsu_x = 90, rsu_y = 0\<rparr>] 10 1) =
      [(Start, 0), (Rsu 1, 1), (Rsu 2, 1), (Rsu 1, 2), (Rsu 2, 2), (Rsu 1, 3), (Rsu 2, 3),
       (Rsu 1, 4), (Rsu 2, 4), (Rsu 1, 5), (Rsu 2, 5), (Rsu 1, 6), (Rsu 2, 6), (Rsu 1, 7),
       (Rsu 2, 7), (Rsu 1, 8), (Rsu 2, 8), (Rsu 1, 9), (Rsu 2, 9), (Rsu 1, 10), (Rsu 2, 10),
       (End, 11)]"
proof -
  let ?v = "\<lparr>veh_id = ''v1'', veh_pos = (0, 0), veh_speed = 10, veh_angle = 0,
                   veh_length = 5, veh_width = 2\<rparr>"
  let ?a = "\<lparr>rsu_id = 1, rsu_x = 0, rsu_y = 0\<rparr>"
  let ?b = "\<lparr>rsu_id = 2, rsu_x = 90, rsu_y = 0\<rparr>"
  have ids: "rsu_id ?a \<noteq> rsu_id ?b" by simp
  have rng: "\<forall>t. 1 \<le> t \<and> t \<le> 10 \<longrightarrow> in_range ?v 1 ?a t \<and> in_range ?v 1 ?b t"
    using crossing_instance by blast
  show "g_weight (build_graph ?v [?a, ?b] 10 1) = two_rsu_final ?v 1 ?a ?b 10"
    by (rule build_graph_two(1) [OF ids rng])
  show "g_nodes (build_graph ?v [?a, ?b] 10 1) =
      [(Start, 0), (Rsu 1, 1), (Rsu 2, 1), (Rsu 1, 2), (Rsu 2, 2), (Rsu 1, 3), (Rsu 2, 3),
       (Rsu 1, 4), (Rsu 2, 4), (Rsu 1, 5), (Rsu 2, 5), (Rsu 1, 6), (Rsu 2, 6), (Rsu 1, 7),
       (Rsu 2, 7), (Rsu 1, 8), (Rsu 2, 8), (Rsu 1, 9), (Rsu 2, 9), (Rsu 1, 10), (Rsu 2, 10),
       (End, 11)]"
    unfolding build_graph_two(3) [OF ids rng] by (simp add: upt_rec rsu_node_def)
qed

lemmas search_defs = bidirectional_dijkstra_def bidirectional_loop.simps neighs_def
  successors_def predecessors_def weight_def relaxing_def meet_def heappush_def
  entry_less_def Let_def

lemmas crossing_defs = two_rsu_final_def two_rsu_weight_def layer_def rsu_node_def
  potential_datarate_def

text \<open>
  Claim C1 fails on the code. The vehicle starts at the origin and drives along the
  x axis at speed 10; RSU 1 stands at the origin and RSU 2 at \<open>(90, 0)\<close>, so both are in
  range at every tick of the horizon of 10, RSU 1 is strictly better before tick 5 and
  RSU 2 strictly better from tick 5 on. The schedule that follows RSU 1 at the ticks 1 to
  4 and RSU 2 at the ticks 5 to 10 sums the quality \<open>434900 / 293601\<close>, about 1.4813,
  and no path from start to end sums more. \<open>construct_dag\<close> hands the negative weights
  to Dijkstra's search from both ends: the backward search settles, at every tick, the
  node that the walk of the set of that tick met first, whatever its quality. When the
  sets of the ticks 5 to 10 are walked in the order that the assumptions state, which is
  the order of \<open>example_slot\<close>, the schedule returned goes back to RSU 1 at tick 8: it
  switches at the ticks 5, 8 and 9 and sums \<open>11119510 / 7927227\<close>, about 1.4027.
\<close>

theorem horizon_schedule_not_optimal:
  fixes slot :: "node \<Rightarrow> nat"
  assumes "slot (Rsu 2, 10) < slot (Rsu 1, 10)"
    and "slot (Rsu 2, 9) < slot (Rsu 1, 9)"
    and "slot (Rsu 1, 8) < slot (Rsu 2, 8)"
    and "slot (Rsu 1, 7) < slot (Rsu 2, 7)"
    and "slot (Rsu 1, 6) < slot (Rsu 2, 6)"
    and "slot (Rsu 2, 5) < slot (Rsu 1, 5)"
  shows "construct_dag slot \<lparr>veh_id = ''v1'', veh_pos = (0, 0), veh_speed = 10, veh_angle = 0,
                   veh_length = 5, veh_width = 2\<rparr>
     [\<lparr>rsu_id = 1, rsu_x = 0, rsu_y = 0\<rparr>, \<lparr>rsu_id = 2, rsu_x = 90, rsu_y = 0\<rparr>] 10 1 =
     Inr [(Start, 0), (Rsu 1, 1), (Rsu 1, 2), (Rsu 1, 3), (Rsu 1, 4), (Rsu 2, 5), (Rsu 2, 6),
      (Rsu 2, 7), (Rsu 1, 8), (Rsu 2, 9), (Rsu 2, 10), (End, 11)] \<and>
   is_path (build_graph \<lparr>veh_id = ''v1'', veh_pos = (0, 0), veh_speed = 10, veh_angle = 0,
                   veh_length = 5, veh_width = 2\<rparr>
        [\<lparr>rsu_id = 1, rsu_x = 0, rsu_y = 0\<rparr>, \<lparr>rsu_id = 2, rsu_x = 90, rsu_y = 0\<rparr>] 10 1)
     [(Start, 0), (Rsu 1, 1), (Rsu 1, 2), (Rsu 1, 3), (Rsu 1, 4), (Rsu 2, 5), (Rsu 2, 6),
      (Rsu 2, 7), (Rsu 1, 8), (Rsu 2, 9), (Rsu 2, 10), (End, 11)] \<and>
   - path_weight (build_graph \<lparr>veh_id = ''v1'', veh_pos = (0, 0), veh_speed = 10, veh_angle = 0,
                   veh_length = 5, veh_width = 2\<rparr>
        [\<lparr>rsu_id = 1, rsu_x = 0, rsu_y = 0\<rparr>, \<lparr>rsu_id = 2, rsu_x = 90, rsu_y = 0\<rparr>] 10 1)
     [(Start, 0), (Rsu 1, 1), (Rsu 1, 2), (Rsu 1, 3), (Rsu 1, 4), (Rsu 2, 5), (Rsu 2, 6),
      (Rsu 2, 7), (Rsu 1, 8), (Rsu 2, 9), (Rsu 2, 10), (End, 11)] = 11119510 / 7927227 \<and>
   is_path (build_graph \<lparr>veh_id = ''v1'', veh_pos = (0, 0), veh_speed = 10, veh_angle = 0,
                   veh_length = 5, veh_width = 2\<rparr>
        [\<lparr>rsu_id = 1, rsu_x = 0, rsu_y = 0\<rparr>, \<lparr>rsu_id = 2, rsu_x = 90, rsu_y = 0\<rparr>] 10 1)
     [(Start, 0), (Rsu 1, 1), (Rsu 1, 2), (Rsu 1, 3), (Rsu 1, 4), (Rsu 2, 5), (Rsu 2, 6),
      (Rsu 2, 7), (Rsu 2, 8), (Rsu 2, 9), (Rsu 2, 10), (End, 11)] \<and>
   - path_weight (build_graph \<lparr>veh_id = ''v1'', veh_pos = (0, 0), veh_speed = 10, veh_angle = 0,
                   veh_length = 5, veh_width = 2\<rparr>
        [\<lparr>rsu_id = 1, rsu_x = 0, rsu_y = 0\<rparr>, \<lparr>rsu_id = 2, rsu_x = 90, rsu_y = 0\<rparr>] 10 1)
     [(Start, 0), (Rsu 1, 1), (Rsu 1, 2), (Rsu 1, 3), (Rsu 1, 4), (Rsu 2, 5), (Rsu 2, 6),
      (Rsu 2, 7), (Rsu 2, 8), (Rsu 2, 9), (Rsu 2, 10), (End, 11)] = 434900 / 293601 \<and>
   (\<forall>q. is_path (build_graph \<lparr>veh_id = ''v1'', veh_pos = (0, 0), veh_speed = 10, veh_angle = 0,
                   veh_length = 5, veh_width = 2\<rparr>
        [\<lparr>rsu_id = 1, rsu_x = 0, rsu_y = 0\<rparr>, \<lparr>rsu_id = 2, rsu_x = 90, rsu_y = 0\<rparr>] 10 1) q \<and>
        hd q = (Start, 0) \<and> last q = (End, 11) \<longrightarrow>
        - path_weight (build_graph \<lparr>veh_id = ''v1'', veh_pos = (0, 0), veh_speed = 10, veh_angle = 0,
                   veh_length = 5, veh_width = 2\<rparr>
        [\<lparr>rsu_id = 1, rsu_x = 0, rsu_y = 0\<rparr>, \<lparr>rsu_id = 2, rsu_x = 90, rsu_y = 0\<rparr>] 10 1) q \<le> 434900 / 293601) \<and>
   (\<forall>t. 1 \<le> t \<and> t \<le> 10 \<longrightarrow>
        in_range \<lparr>veh_id = ''v1'', veh_pos = (0, 0), veh_speed = 10, veh_angle = 0,
                   veh_length = 5, veh_width = 2\<rparr> 1 \<lparr>rsu_id = 1, rsu_x = 0, rsu_y = 0\<rparr> t \<and>
        in_range \<lparr>veh_id = ''v1'', veh_pos = (0, 0), veh_speed = 10, veh_angle = 0,
                   veh_length = 5, veh_width = 2\<rparr> 1 \<lparr>rsu_id = 2, rsu_x = 90, rsu_y = 0\<rparr> t \<and>
        (t < 5 \<longrightarrow>
           potential_datarate \<lparr>veh_id = ''v1'', veh_pos = (0, 0), veh_speed = 10, veh_angle = 0,
                   veh_length = 5, veh_width = 2\<rparr> 1 \<lparr>rsu_id = 2, rsu_x = 90, rsu_y = 0\<rparr> t
           < potential_datarate \<lparr>veh_id = ''v1'', veh_pos = (0, 0), veh_speed = 10, veh_angle = 0,
                   veh_length = 5, veh_width = 2\<rparr> 1 \<lparr>rsu_id = 1, rsu_x = 0, rsu_y = 0\<rparr> t) \<and>
        (5 \<le> t \<longrightarrow>
           potential_datarate \<lparr>veh_id = ''v1'', veh_pos = (0, 0), veh_speed = 10, veh_angle = 0,
                   veh_length = 5, veh_width = 2\<rparr> 1 \<lparr>rsu_id = 1, rsu_x = 0, rsu_y = 0\<rparr> t
           < potential_datarate \<lparr>veh_id = ''v1'', veh_pos = (0, 0), veh_speed = 10, veh_angle = 0,
                   veh_length = 5, veh_width = 2\<rparr> 1 \<lparr>rsu_id = 2, rsu_x = 90, rsu_y = 0\<rparr> t))"
proof -
  let ?v = "\<lparr>veh_id = ''v1'', veh_pos = (0, 0), veh_speed = 10, veh_angle = 0,
                   veh_length = 5, veh_width = 2\<rparr>"
  let ?a = "\<lparr>rsu_id = 1, rsu_x = 0, rsu_y = 0\<rparr>"
  let ?b = "\<lparr>rsu_id = 2, rsu_x = 90, rsu_y = 0\<rparr>"
  let ?G = "build_graph ?v [?a, ?b] 10 1"
  let ?R = "[(Start, 0), (Rsu 1, 1), (Rsu 1, 2), (Rsu 1, 3), (Rsu 1, 4), (Rsu 2, 5), (Rsu 2, 6),
      (Rsu 2, 7), (Rsu 1, 8), (Rsu 2, 9), (Rsu 2, 10), (End, 11)]"
  let ?X = "[(Start, 0), (Rsu 1, 1), (Rsu 1, 2), (Rsu 1, 3), (Rsu 1, 4), (Rsu 2, 5), (Rsu 2, 6),
      (Rsu 2, 7), (Rsu 2, 8), (Rsu 2, 9), (Rsu 2, 10), (End, 11)]"
  have ids: "rsu_id ?a \<noteq> rsu_id ?b" by simp
  have rng: "\<forall>t. 1 \<le> t \<and> t \<le> 10 \<longrightarrow> in_range ?v 1 ?a t \<and> in_range ?v 1 ?b t"
    using crossing_instance by blast
  have strict: "\<forall>t. 1 \<le> t \<and> t \<le> 10 \<longrightarrow>
      (t < 5 \<longrightarrow> potential_datarate ?v 1 ?b t < potential_datarate ?v 1 ?a t) \<and>
      (5 \<le> t \<longrightarrow> potential_datarate ?v 1 ?a t < potential_datarate ?v 1 ?b t)"
    using crossing_instance by blast
  note gw = crossing_graph(1)
  note gl = crossing_graph(2)
  have search: "bidirectional_dijkstra slot ?G (Start, 0) (End, 11) =
      Inr (- (11119510 / 7927227), ?R)"
    unfolding bidirectional_dijkstra_def
    using assms
    by (simp add: gl gw crossing_defs graph_defs search_defs)
  have ret: "construct_dag slot ?v [?a, ?b] 10 1 = Inr ?R"
    unfolding construct_dag_def shortest_path_def using search by simp
  have pr: "is_path ?G ?R"
    by (simp add: gl gw two_rsu_final_def two_rsu_weight_def layer_def rsu_node_def)
  have wr: "- path_weight ?G ?R = 11119510 / 7927227"
    by (simp add: gw two_rsu_final_def two_rsu_weight_def layer_def rsu_node_def
        potential_datarate_def graph_defs)
  have px: "is_path ?G ?X"
    by (simp add: gl gw two_rsu_final_def two_rsu_weight_def layer_def rsu_node_def)
  have wx: "- path_weight ?G ?X = 434900 / 293601"
    by (simp add: gw two_rsu_final_def two_rsu_weight_def layer_def rsu_node_def
        potential_datarate_def graph_defs)
  have tail: "(Start, 0) # best_tail ?a ?b 5 10 0 = ?X"
    by (simp add: best_tail_def best_node_def rsu_node_def upt_rec)
  have s0: "(Start, 0) \<in> set (layer ?a ?b 0)" by (simp add: layer_def)
  from best_path [OF ids gw build_graph_two(2) [OF ids rng], of 0 "(Start, 0)" 5] s0
  have "path_weight ?G ((Start, 0) # best_tail ?a ?b 5 10 0) = - best_quality ?v 1 ?a ?b 5 10 0"
    by simp
  then have bq: "best_quality ?v 1 ?a ?b 5 10 0 = 434900 / 293601"
    unfolding tail using wx by simp
  have opt: "- path_weight ?G q \<le> 434900 / 293601"
    if q: "is_path ?G q \<and> hd q = (Start, 0) \<and> last q = (End, 11)" for q
  proof -
    from q have h0: "hd q \<in> set (layer ?a ?b 0)" by (simp add: layer_def)
    from q have lq: "last q = (End, Suc 10)" by simp
    from q have pq: "is_path ?G q" by simp
    from layered_lower_bound [OF ids gw strict pq h0 _ lq]
    have "- best_quality ?v 1 ?a ?b 5 10 0 \<le> path_weight ?G q" by simp
    then show ?thesis unfolding bq by simp
  qed
  from ret pr wr px wx opt rng strict show ?thesis by blast
qed

theorem horizon_schedule_not_optimal_witness:
  "example_slot (Rsu 2, 10) < example_slot (Rsu 1, 10) \<and>
   example_slot (Rsu 2, 9) < example_slot (Rsu 1, 9) \<and>
   example_slot (Rsu 1, 8) < example_slot (Rsu 2, 8) \<and>
   example_slot (Rsu 1, 7) < example_slot (Rsu 2, 7) \<and>
   example_slot (Rsu 1, 6) < example_slot (Rsu 2, 6) \<and>
   example_slot (Rsu 2, 5) < example_slot (Rsu 1, 5) \<and>
   construct_dag example_slot \<lparr>veh_id = ''v1'', veh_pos = (0, 0), veh_speed = 10, veh_angle = 0,
                   veh_length = 5, veh_width = 2\<rparr>
     [\<lparr>rsu_id = 1, rsu_x = 0, rsu_y = 0\<rparr>, \<lparr>rsu_id = 2, rsu_x = 90, rsu_y = 0\<rparr>] 10 1 =
     Inr [(Start, 0), (Rsu 1, 1), (Rsu 1, 2), (Rsu 1, 3), (Rsu 1, 4), (Rsu 2, 5), (Rsu 2, 6),
      (Rsu 2, 7), (Rsu 1, 8), (Rsu 2, 9), (Rsu 2, 10), (End, 11)] \<and>
   is_path (build_graph \<lparr>veh_id = ''v1'', veh_pos = (0, 0), veh_speed = 10, veh_angle = 0,
                   veh_length = 5, veh_width = 2\<rparr>
        [\<lparr>rsu_id = 1, rsu_x = 0, rsu_y = 0\<rparr>, \<lparr>rsu_id = 2, rsu_x = 90, rsu_y = 0\<rparr>] 10 1)
     [(Start, 0), (Rsu 1, 1), (Rsu 1, 2), (Rsu 1, 3), (Rsu 1, 4), (Rsu 2, 5), (Rsu 2, 6),
      (Rsu 2, 7), (Rsu 1, 8), (Rsu 2, 9), (Rsu 2, 10), (End, 11)] \<and>
   - path_weight (build_graph \<lparr>veh_id = ''v1'', veh_pos = (0, 0), veh_speed = 10, veh_angle = 0,
                   veh_length = 5, veh_width = 2\<rparr>
        [\<lparr>rsu_id = 1, rsu_x = 0, rsu_y = 0\<rparr>, \<lparr>rsu_id = 2, rsu_x = 90, rsu_y = 0\<rparr>] 10 1)
     [(Start, 0), (Rsu 1, 1), (Rsu 1, 2), (Rsu 1, 3), (Rsu 1, 4), (Rsu 2, 5), (Rsu 2, 6),
      (Rsu 2, 7), (Rsu 1, 8), (Rsu 2, 9), (Rsu 2, 10), (End, 11)] = 11119510 / 7927227 \<and>
   is_path (build_graph \<lparr>veh_id = ''v1'', veh_pos = (0, 0), veh_speed = 10, veh_angle = 0,
                   veh_length = 5, veh_width = 2\<rparr>
        [\<lparr>rsu_id = 1, rsu_x = 0, rsu_y = 0\<rparr>, \<lparr>rsu_id = 2, rsu_x = 90, rsu_y = 0\<rparr>] 10 1)
     [(Start, 0), (Rsu 1, 1), (Rsu 1, 2), (Rsu 1, 3), (Rsu 1, 4), (Rsu 2, 5), (Rsu 2, 6),
      (Rsu 2, 7), (Rsu 2, 8), (Rsu 2, 9), (Rsu 2, 10), (End, 11)] \<and>
   - path_weight (build_graph \<lparr>veh_id = ''v1'', veh_pos = (0, 0), veh_speed = 10, veh_angle = 0,
                   veh_length = 5, veh_width = 2\<rparr>
        [\<lparr>rsu_id = 1, rsu_x = 0, rsu_y = 0\<rparr>, \<lparr>rsu_id = 2, rsu_x = 90, rsu_y = 0\<rparr>] 10 1)
     [(Start, 0), (Rsu 1, 1), (Rsu 1, 2), (Rsu 1, 3), (Rsu 1, 4), (Rsu 2, 5), (Rsu 2, 6),
      (Rsu 2, 7), (Rsu 2, 8), (Rsu 2, 9), (Rsu 2, 10), (End, 11)] = 434900 / 293601"
  using horizon_schedule_not_optimal [of example_slot]
  by (simp add: example_slot_def)

section \<open>The schedule when the sets are walked in insertion order\<close>

text \<open>
  On the same vehicle and roster, when every set is walked in the order of insertion
  (all slots equal), the backward search takes RSU 1 at the ticks 10 and 9: the schedule
  returned switches at the ticks 5 and 9 and sums \<open>158533360 / 385498113\<close>, about
  0.4112, against the 1.4813 of the schedule that switches at tick 5 only.
\<close>

theorem horizon_schedule_insertion_order:
  "construct_dag (\<lambda>v. 0) \<lparr>veh_id = ''v1'', veh_pos = (0, 0), veh_speed = 10, veh_angle = 0,
                   veh_length = 5, veh_width = 2\<rparr>
     [\<lparr>rsu_id = 1, rsu_x = 0, rsu_y = 0\<rparr>, \<lparr>rsu_id = 2, rsu_x = 90, rsu_y = 0\<rparr>] 10 1 =
     Inr [(Start, 0), (Rsu 1, 1), (Rsu 1, 2), (Rsu 1, 3), (Rsu 1, 4), (Rsu 2, 5), (Rsu 2, 6),
      (Rsu 2, 7), (Rsu 2, 8), (Rsu 1, 9), (Rsu 1, 10), (End, 11)] \<and>
   - path_weight (build_graph \<lparr>veh_id = ''v1'', veh_pos = (0, 0), veh_speed = 10, veh_angle = 0,
                   veh_length = 5, veh_width = 2\<rparr>
        [\<lparr>rsu_id = 1, rsu_x = 0, rsu_y = 0\<rparr>, \<lparr>rsu_id = 2, rsu_x = 90, rsu_y = 0\<rparr>] 10 1)
     [(Start, 0), (Rsu 1, 1), (Rsu 1, 2), (Rsu 1, 3), (Rsu 1, 4), (Rsu 2, 5), (Rsu 2, 6),
      (Rsu 2, 7), (Rsu 2, 8), (Rsu 1, 9), (Rsu 1, 10), (End, 11)] = 158533360 / 385498113 \<and>
   (158533360 / 385498113 :: real) < 434900 / 293601"
proof -
  let ?v = "\<lparr>veh_id = ''v1'', veh_pos = (0, 0), veh_speed = 10, veh_angle = 0,
                   veh_length = 5, veh_width = 2\<rparr>"
  let ?a = "\<lparr>rsu_id = 1, rsu_x = 0, rsu_y = 0\<rparr>"
  let ?b = "\<lparr>rsu_id = 2, rsu_x = 90, rsu_y = 0\<rparr>"
  let ?G = "build_graph ?v [?a, ?b] 10 1"
  let ?R = "[(Start, 0), (Rsu 1, 1), (Rsu 1, 2), (Rsu 1, 3), (Rsu 1, 4), (Rsu 2, 5), (Rsu 2, 6),
      (Rsu 2, 7), (Rsu 2, 8), (Rsu 1, 9), (Rsu 1, 10), (End, 11)]"
  note gw = crossing_graph(1)
  note gl = crossing_graph(2)
  have search: "bidirectional_dijkstra (\<lambda>v. 0) ?G (Start, 0) (End, 11) =
      Inr (- (158533360 / 385498113), ?R)"
    by (simp add: gl gw crossing_defs graph_defs search_defs)
  have ret: "construct_dag (\<lambda>v. 0) ?v [?a, ?b] 10 1 = Inr ?R"
    unfolding construct_dag_def shortest_path_def using search by simp
  have wr: "- path_weight ?G ?R = 158533360 / 385498113"
    by (simp add: gw crossing_defs graph_defs)
  from ret wr show ?thesis by simp
qed

section \<open>Further properties of the obstruction tests\<close>

lemma subject_blocks_itself:
  assumes "veh \<in> set sim"
  shows "is_blocking_los_chandler sim (predict_future_position_of veh time_ahead) rsu time_ahead"
  unfolding is_blocking_los_chandler_def list_ex_iff Let_def
  using assms by (intro bexI [of _ veh]) auto

lemma rollout_lost_everywhere: "\<forall>t. lost t \<Longrightarrow> rollout lost s ts 0 = 0"
  by (cases ts) simp_all

text \<open>
  In \<open>run_chandleraz_simulation_smart.py\<close> the subject is among the obstacles of
  \<open>is_blocking_los\<close> and is moved to the same predicted position as itself, so the link of
  an active vehicle is lost at every tick and the estimated duration is 0 for every
  step other than 0.
\<close>

theorem chandler_duration_is_zero:
  assumes "veh \<in> set sim" and "step_size \<noteq> 0"
  shows "estimate_connection_duration_chandler sim veh rsu max_duration step_size = Inr 0"
proof -
  have "\<forall>t. link_lost_chandler sim veh rsu t"
    unfolding link_lost_chandler_def using subject_blocks_itself [OF assms(1)] by blast
  then have "rollout (link_lost_chandler sim veh rsu) step_size ts 0 = 0" for ts
    by (rule rollout_lost_everywhere)
  then show ?thesis
    using assms(2)
    by (simp add: estimate_connection_duration_chandler_def estimate_loop_def py_range_def)
qed

theorem chandler_duration_is_zero_witness:
  "\<lparr>veh_id = ''v1'', veh_pos = (0, 0), veh_speed = 0, veh_angle = 0,
     veh_length = 5, veh_width = 2\<rparr>
     \<in> set [\<lparr>veh_id = ''v1'', veh_pos = (0, 0), veh_speed = 0, veh_angle = 0,
               veh_length = 5, veh_width = 2\<rparr>] \<and>
   (1::int) \<noteq> 0 \<and>
   estimate_connection_duration_chandler
     [\<lparr>veh_id = ''v1'', veh_pos = (0, 0), veh_speed = 0, veh_angle = 0,
       veh_length = 5, veh_width = 2\<rparr>]
     \<lparr>veh_id = ''v1'', veh_pos = (0, 0), veh_speed = 0, veh_angle = 0,
       veh_length = 5, veh_width = 2\<rparr>
     \<lparr>rsu_id = 1, rsu_x = 10, rsu_y = 0\<rparr> 10 1 = Inr 0"
proof -
  have m: "\<lparr>veh_id = ''v1'', veh_pos = (0, 0), veh_speed = 0, veh_angle = 0,
     veh_length = 5, veh_width = 2\<rparr>
     \<in> set [\<lparr>veh_id = ''v1'', veh_pos = (0, 0), veh_speed = 0, veh_angle = 0,
               veh_length = 5, veh_width = 2\<rparr>]" by simp
  have s: "(1::int) \<noteq> 0" by simp
  show ?thesis using chandler_duration_is_zero [OF m s] m s by blast
qed

text \<open>
  In \<open>run_simulation_base.py\<close> the link is reported blocked exactly when an active
  vehicle of another identity lies in the rectangle spanned by the position and the RSU;
  a vehicle that is the only active one is never reported blocked.
\<close>

theorem base_blocked_by_another:
  "check_for_obstacles_base sim vehicle_pos rsu vehicle_id =
     (\<exists>ob\<in>set sim. veh_id ob \<noteq> vehicle_id \<and>
        min (fst vehicle_pos) (rsu_x rsu) \<le> fst (veh_pos ob) \<and>
        fst (veh_pos ob) \<le> max (fst vehicle_pos) (rsu_x rsu) \<and>
        min (snd vehicle_pos) (rsu_y rsu) \<le> snd (veh_pos ob) \<and>
        snd (veh_pos ob) \<le> max (snd vehicle_pos) (rsu_y rsu)) \<and>
   \<not> check_for_obstacles_base [veh] vehicle_pos rsu (veh_id veh)"
  by (simp add: check_for_obstacles_base_def list_ex_iff)

end
